theory Spec2Isabelle
  imports Complex_Main "HOL-Library.Word"
begin

section \<open>Mandark command-line driver (src/app.ts)\<close>

text \<open>
  The driver \<^verbatim>\<open>app.ts\<close> orchestrates collaborators that live in other modules of the
  repository (\<^verbatim>\<open>process-files\<close>, \<^verbatim>\<open>call-ai-*\<close>, \<^verbatim>\<open>verify-edits\<close>,
  \<^verbatim>\<open>edit-processor\<close>, \<^verbatim>\<open>edit-history\<close>, \<^verbatim>\<open>apiKeyUtils\<close>, \<^verbatim>\<open>models\<close>).
  The driver is embedded as a function from the command line and an environment that
  answers every collaborator call to the ordered list of calls the driver makes and the
  way the process ends.
\<close>

subsection \<open>Data\<close>

text \<open>
  An entry of the \<^verbatim>\<open>models\<close> table, with the fields the driver reads. The two cost
  fields \<^verbatim>\<open>inputCPM\<close> and \<^verbatim>\<open>outputCPM\<close> only feed the floating-point cost estimate
  printed at line 129 and are left out.
\<close>

record model =
  name :: string
  nickName :: string
  provider :: string
  contextWindow :: int
  outputLength :: int

text \<open>The object returned by \<^verbatim>\<open>checkContextWindowOverflow\<close>; an absent optional field is \<open>None\<close>.\<close>

record overflowCheck =
  overflow :: bool
  overflowTokens :: "int option"
  overflowPercentage :: "real option"

subsection \<open>checkContextWindowOverflow (lines 39-51)\<close>

text \<open>
  Token counts and window sizes are integers far below \<open>2^53\<close>, so JavaScript's numbers
  are exact on them and \<open>int\<close> models them. The percentage is a floating-point quotient in
  the source; it is kept here as the exact quotient it rounds.
\<close>

definition checkContextWindowOverflow :: "int \<Rightarrow> model \<Rightarrow> overflowCheck" where
  "checkContextWindowOverflow inputTokens selectedModel =
     (let availableTokens = contextWindow selectedModel - outputLength selectedModel in
      if inputTokens > availableTokens then
        (let overflowTokens' = inputTokens - availableTokens;
             overflowPercentage' = (real_of_int overflowTokens' / real_of_int availableTokens) * 100
         in \<lparr>overflow = True, overflowTokens = Some overflowTokens',
              overflowPercentage = Some overflowPercentage'\<rparr>)
      else \<lparr>overflow = False, overflowTokens = None, overflowPercentage = None\<rparr>)"

subsection \<open>Argument handling and model selection (lines 61-71)\<close>

text \<open>\<^verbatim>\<open>s.startsWith(p)\<close>.\<close>

definition startsWith :: "'a list \<Rightarrow> 'a list \<Rightarrow> bool" where
  "startsWith s p = (take (length p) s = p)"

text \<open>The filter of line 63: an argument is kept when it does not start with \<^verbatim>\<open>-\<close> and is not empty.\<close>

definition nonFlag :: "string \<Rightarrow> bool" where
  "nonFlag input = (\<not> startsWith input ''-'' \<and> input \<noteq> [])"

text \<open>\<^verbatim>\<open>Array.prototype.pop\<close>: the last element (\<^verbatim>\<open>undefined\<close> on an empty array) and the rest.\<close>

definition pop :: "'a list \<Rightarrow> 'a option \<times> 'a list" where
  "pop xs = (if xs = [] then (None, []) else (Some (last xs), butlast xs))"

text \<open>\<^verbatim>\<open>models.find((model) => model.nickName === modelNickname)\<close>: the first match.\<close>

fun findModel :: "model list \<Rightarrow> string \<Rightarrow> model option" where
  "findModel [] n = None"
| "findModel (m # ms) n = (if nickName m = n then Some m else findModel ms n)"

text \<open>\<^verbatim>\<open>models[0]\<close>, which is \<^verbatim>\<open>undefined\<close> on an empty table.\<close>

definition firstModel :: "model list \<Rightarrow> model option" where
  "firstModel ms = (case ms of [] \<Rightarrow> None | m # _ \<Rightarrow> Some m)"

text \<open>
  Lines 63-71: the selected model (\<open>None\<close> for \<^verbatim>\<open>undefined\<close>) and the remaining
  \<^verbatim>\<open>inputs\<close>. A popped \<^verbatim>\<open>undefined\<close> matches no nickname and is not pushed back; a
  popped string is pushed back when it is truthy, that is, not empty.
\<close>

definition selectModel :: "model list \<Rightarrow> string list \<Rightarrow> model option \<times> string list" where
  "selectModel ms args =
     (let (modelNickname, inputs) = pop (filter nonFlag args) in
      case (case modelNickname of None \<Rightarrow> None | Some n \<Rightarrow> findModel ms n) of
        Some m \<Rightarrow> (Some m, inputs)
      | None \<Rightarrow>
          (firstModel ms,
           (case modelNickname of
              None \<Rightarrow> inputs
            | Some n \<Rightarrow> if n \<noteq> [] then inputs @ [n] else inputs)))"

subsection \<open>The text of a task\<close>

text \<open>
  Command-line arguments, paths and provider names are only compared with each other
  and with ASCII literals, so they are byte strings here. The task the user enters is
  lower-cased, cut after four UTF-16 code units (\<^verbatim>\<open>task.slice(4)\<close>) and trimmed, so it
  is a JavaScript string proper: a list of 16-bit code units. \<open>units\<close> writes an ASCII
  literal as such a list.
\<close>

type_synonym jsString = "16 word list"

definition units :: "string \<Rightarrow> jsString" where
  "units s = map of_char s"

subsection \<open>Collaborators, calls and outcomes\<close>

text \<open>A value thrown by a collaborator, or the \<^verbatim>\<open>TypeError\<close> of reading a property of \<^verbatim>\<open>undefined\<close>.\<close>

datatype exn = Thrown string | TypeError

text \<open>The result of \<^verbatim>\<open>processFiles\<close>: the line-tagged text and the number of files.\<close>

record processedFiles =
  code :: string
  count :: nat

text \<open>
  What the driver prints. The texts are fixed by the source; a message is represented by
  its kind and the values interpolated into it (colours and number formatting left out).
\<close>

datatype message =
    AvailableModels "string list"
  | AppendNicknameHint
  | ApiKeySet string
  | NoFilesOrFolders
  | SavedCompiledCode
  | Welcome
  | SelectedModel string string string
  | OverflowWarning "int option" "real option"
  | ReduceInputSize
  | Loaded nat int
  | Newlines
  | UnsupportedProvider string
  | LeaveAStar

text \<open>
  One entry of a run's trace: a call the driver makes to a collaborator, with its
  arguments, in the order the calls happen. \<open>'s\<close> is the type of edit-packet streams.
  \<open>CheckAPIKey p b\<close> records the answer \<open>b\<close> as well.
\<close>

datatype 's event =
    RevertLastChanges
  | ConsoleLog message
  | ConsoleError message
  | StdoutWrite string
  | ProcessFiles "string list" bool
  | WriteFileSync string string
  | CheckAPIKey string bool
  | GetAndSetAPIKey string
  | Confirm
  | Input
  | AskAI string jsString string string
  | GetAIEditsFromClaude string jsString string
  | GetAIEditsFromGPT string jsString string
  | GetAIEditsFromFireworks string jsString string
  | NewEditProcessor
  | VerifyEditStream 's string
  | ProcessEditStream 's

text \<open>
  How \<^verbatim>\<open>main\<close> ends: it returns, it calls \<^verbatim>\<open>process.exit\<close>, or its promise is
  rejected with a thrown value (which line 199 hands to \<^verbatim>\<open>console.error\<close>).
\<close>

datatype outcome = Returned | Exited nat | Rejected exn

text \<open>
  The environment answers every collaborator call. A call that can throw answers with a
  sum (\<open>Inl\<close> the thrown value) or, when it returns nothing, with an optional thrown value.
  \<open>'k\<close> is the state of the API-key storage, read by \<^verbatim>\<open>checkAPIKey\<close> and changed by
  \<^verbatim>\<open>getAndSetAPIKey\<close>. \<^verbatim>\<open>confirm\<close> and \<^verbatim>\<open>input\<close> are asked at most once in a run, so
  their answers are values; \<^verbatim>\<open>input\<close> answers with a task that passed its validation.
  \<^verbatim>\<open>askAI\<close> answers with the chunks its stream yields and the value it throws at the
  end, if any. \<^verbatim>\<open>String.prototype.toLowerCase\<close> and \<^verbatim>\<open>String.prototype.trim\<close> are the
  JavaScript runtime's; what they do rests on the Unicode tables of the runtime, so
  they are taken from the environment as well.
\<close>

record ('s, 'k) env =
  models :: "model list"
  preferredVerifierModel :: model
  revertLastChanges :: "exn option"
  processFiles :: "string list \<Rightarrow> bool \<Rightarrow> exn + processedFiles"
  writeFileSync :: "string \<Rightarrow> string \<Rightarrow> exn option"
  checkAPIKey :: "'k \<Rightarrow> string \<Rightarrow> bool"
  getAndSetAPIKey :: "string \<Rightarrow> 'k \<Rightarrow> exn + 'k"
  countTokens :: "string \<Rightarrow> int"
  taskPrompt :: "string \<Rightarrow> string"
  confirm :: "exn + bool"
  input :: "exn + jsString"
  toLowerCase :: "jsString \<Rightarrow> jsString"
  trim :: "jsString \<Rightarrow> jsString"
  askAI :: "string \<Rightarrow> jsString \<Rightarrow> string \<Rightarrow> string \<Rightarrow> string list \<times> exn option"
  getAIEditsFromClaude :: "string \<Rightarrow> jsString \<Rightarrow> string \<Rightarrow> exn + 's"
  getAIEditsFromGPT :: "string \<Rightarrow> jsString \<Rightarrow> string \<Rightarrow> exn + 's"
  getAIEditsFromFireworks :: "string \<Rightarrow> jsString \<Rightarrow> string \<Rightarrow> exn + 's"
  verifyEditStream :: "'s \<Rightarrow> string \<Rightarrow> exn + 's"
  processEditStream :: "'s \<Rightarrow> exn option"

text \<open>
  A part of a run: the calls made, and either the way the run stopped there (\<open>Inl\<close>) or
  the value the part hands on (\<open>Inr\<close>).
\<close>

type_synonym ('s, 'a) step = "'s event list \<times> (outcome + 'a)"

definition andThen :: "('s, 'a) step \<Rightarrow> ('a \<Rightarrow> ('s, 'b) step) \<Rightarrow> ('s, 'b) step" where
  "andThen m f =
     (case m of
        (t, Inl out) \<Rightarrow> (t, Inl out)
      | (t, Inr a) \<Rightarrow> (case f a of (t', r) \<Rightarrow> (t @ t', r)))"

text \<open>A call whose result is awaited: a thrown value rejects \<^verbatim>\<open>main\<close>.\<close>

definition await :: "'s event \<Rightarrow> exn + 'a \<Rightarrow> ('s, 'a) step" where
  "await call r = ([call], case r of Inl e \<Rightarrow> Inl (Rejected e) | Inr v \<Rightarrow> Inr v)"

text \<open>A call that returns nothing.\<close>

definition perform :: "'s event \<Rightarrow> exn option \<Rightarrow> ('s, unit) step" where
  "perform call r = ([call], case r of Some e \<Rightarrow> Inl (Rejected e) | None \<Rightarrow> Inr ())"

definition emit :: "'s event list \<Rightarrow> ('s, unit) step" where
  "emit es = (es, Inr ())"

definition exit :: "nat \<Rightarrow> ('s, 'a) step" where
  "exit n = ([], Inl (Exited n))"

definition finish :: "('s, unit) step \<Rightarrow> 's event list \<times> outcome" where
  "finish m = (case m of (t, Inl out) \<Rightarrow> (t, out) | (t, Inr _) \<Rightarrow> (t, Returned))"

subsection \<open>The driver\<close>

text \<open>\<^verbatim>\<open>listAvailableModels\<close> (lines 18-26).\<close>

definition listAvailableModels :: "('s, 'k) env \<Rightarrow> ('s, unit) step" where
  "listAvailableModels env =
     emit [ConsoleLog (AvailableModels (map nickName (models env))),
           ConsoleLog AppendNicknameHint]"

text \<open>\<^verbatim>\<open>checkAndSetAPIKey\<close> (lines 28-37); hands on the state of the key storage.\<close>

definition checkAndSetAPIKey :: "('s, 'k) env \<Rightarrow> 'k \<Rightarrow> model \<Rightarrow> ('s, 'k) step" where
  "checkAndSetAPIKey env ks selectedModel =
     (let provider' = provider selectedModel;
          apiKeyPresent = checkAPIKey env ks provider' in
      andThen (emit [CheckAPIKey provider' apiKeyPresent]) (\<lambda>_.
      andThen (if \<not> apiKeyPresent
               then await (GetAndSetAPIKey provider') (getAndSetAPIKey env provider' ks)
               else ([], Inr ks)) (\<lambda>ks'.
      andThen (emit [ConsoleLog (ApiKeySet provider')]) (\<lambda>_.
      ([], Inr ks')))))"

text \<open>Lines 102-123: the overflow warning and the question whether to continue.\<close>

definition overflowGate :: "('s, 'k) env \<Rightarrow> int \<Rightarrow> model \<Rightarrow> ('s, unit) step" where
  "overflowGate env estimatedTokens selectedModel =
     (let overflowCheck = checkContextWindowOverflow estimatedTokens selectedModel in
      if overflow overflowCheck then
        andThen (emit [ConsoleLog (OverflowWarning (overflowTokens overflowCheck)
                                     (overflowPercentage overflowCheck))]) (\<lambda>_.
        andThen (await Confirm (confirm env)) (\<lambda>continueAnyway.
        if \<not> continueAnyway
        then andThen (emit [ConsoleLog ReduceInputSize]) (\<lambda>_. exit 0)
        else ([], Inr ())))
      else ([], Inr ()))"

text \<open>Lines 143-154: a task that starts with \<^verbatim>\<open>ask\<close> and a blank is a question.\<close>

definition isQuestion :: "('s, 'k) env \<Rightarrow> jsString \<Rightarrow> bool" where
  "isQuestion env task = startsWith (toLowerCase env task) (units ''ask '')"

definition askBranch :: "('s, 'k) env \<Rightarrow> model \<Rightarrow> string \<Rightarrow> jsString \<Rightarrow> ('s, unit) step" where
  "askBranch env selectedModel code' task =
     (let question = trim env (drop 4 task);
          (chunks, thrown) = askAI env code' question (name selectedModel) (provider selectedModel) in
      andThen (emit [AskAI code' question (name selectedModel) (provider selectedModel)]) (\<lambda>_.
      andThen (emit (map StdoutWrite chunks)) (\<lambda>_.
      andThen (case thrown of Some e \<Rightarrow> ([], Inl (Rejected e)) | None \<Rightarrow> ([], Inr ())) (\<lambda>_.
      emit [ConsoleLog Newlines]))))"

text \<open>Lines 156-180: the provider's client is asked for the edit-packet stream.\<close>

definition getAIEdits :: "('s, 'k) env \<Rightarrow> model \<Rightarrow> string \<Rightarrow> jsString \<Rightarrow> ('s, 's) step" where
  "getAIEdits env selectedModel code' task =
     (if provider selectedModel = ''anthropic'' then
        await (GetAIEditsFromClaude code' task (name selectedModel))
              (getAIEditsFromClaude env code' task (name selectedModel))
      else if provider selectedModel = ''openai'' then
        await (GetAIEditsFromGPT code' task (name selectedModel))
              (getAIEditsFromGPT env code' task (name selectedModel))
      else if provider selectedModel = ''fireworks'' then
        await (GetAIEditsFromFireworks code' task (name selectedModel))
              (getAIEditsFromFireworks env code' task (name selectedModel))
      else
        andThen (emit [ConsoleError (UnsupportedProvider (provider selectedModel))]) (\<lambda>_.
        exit 1))"

text \<open>Lines 182-189: the stream is verified and the verified stream is applied.\<close>

definition editPipeline :: "('s, 'k) env \<Rightarrow> 'k \<Rightarrow> model \<Rightarrow> 's \<Rightarrow> ('s, unit) step" where
  "editPipeline env ks selectedModel editPacketStream =
     (let preferred = provider (preferredVerifierModel env);
          keyPresent = checkAPIKey env ks preferred;
          verifier = (if keyPresent then preferred else provider selectedModel) in
      andThen (emit [NewEditProcessor, CheckAPIKey preferred keyPresent]) (\<lambda>_.
      andThen (await (VerifyEditStream editPacketStream verifier)
                     (verifyEditStream env editPacketStream verifier)) (\<lambda>verifiedEditStream.
      perform (ProcessEditStream verifiedEditStream)
              (processEditStream env verifiedEditStream))))"

text \<open>Lines 88-196: everything after the compiled text has been obtained.\<close>

definition session :: "('s, 'k) env \<Rightarrow> 'k \<Rightarrow> model option \<Rightarrow> processedFiles \<Rightarrow> ('s, unit) step" where
  "session env ks selected processedFiles' =
     andThen (emit [ConsoleLog Welcome]) (\<lambda>_.
     andThen (listAvailableModels env) (\<lambda>_.
     andThen (case selected of
                None \<Rightarrow> ([], Inl (Rejected TypeError))
              | Some m \<Rightarrow> ([ConsoleLog (SelectedModel (nickName m) (name m) (provider m))], Inr m))
       (\<lambda>selectedModel.
     andThen (checkAndSetAPIKey env ks selectedModel) (\<lambda>ks'.
     (let estimatedTokens =
            countTokens env (code processedFiles' @ taskPrompt env (replicate 100 (CHR ''x''))) in
      andThen (overflowGate env estimatedTokens selectedModel) (\<lambda>_.
      andThen (emit [ConsoleLog (Loaded (count processedFiles') estimatedTokens)]) (\<lambda>_.
      andThen (await Input (input env)) (\<lambda>task.
      andThen (if isQuestion env task
               then askBranch env selectedModel (code processedFiles') task
               else andThen (getAIEdits env selectedModel (code processedFiles') task)
                            (editPipeline env ks' selectedModel)) (\<lambda>_.
      emit [ConsoleLog LeaveAStar])))))))))"

text \<open>\<^verbatim>\<open>main\<close> (lines 53-197). \<^verbatim>\<open>inputs[0]\<close> of an empty array is \<^verbatim>\<open>undefined\<close>.\<close>

definition isRevert :: "string list \<Rightarrow> bool" where
  "isRevert args = (case args of [] \<Rightarrow> False | a # _ \<Rightarrow> a = ''revert'')"

definition main :: "('s, 'k) env \<Rightarrow> 'k \<Rightarrow> string list \<Rightarrow> 's event list \<times> outcome" where
  "main env ks args =
     finish
      (if isRevert args then perform RevertLastChanges (revertLastChanges env)
       else
         (let printCodeAndExit = (''-p'' \<in> set args);
              includeImports = (''-a'' \<in> set args);
              (selectedModel, inputs) = selectModel (models env) args in
          if inputs = [] then
            andThen (emit [ConsoleError NoFilesOrFolders]) (\<lambda>_. exit 1)
          else
            andThen (await (ProcessFiles inputs includeImports)
                           (processFiles env inputs includeImports)) (\<lambda>processedFiles'.
            if printCodeAndExit then
              andThen (perform (WriteFileSync ''compiled-code.txt'' (code processedFiles'))
                               (writeFileSync env ''compiled-code.txt'' (code processedFiles'))) (\<lambda>_.
              andThen (emit [ConsoleLog SavedCompiledCode]) (\<lambda>_.
              exit 0))
            else session env ks selectedModel processedFiles')))"

subsection \<open>A sample environment\<close>

text \<open>
  A small models table and collaborators with fixed answers, used to run the driver on
  concrete command lines. Streams are named by strings; the key storage is the list of
  providers that have a key.
\<close>

definition sonnet :: model where
  "sonnet = \<lparr>name = ''claude-3-5-sonnet-20240620'', nickName = ''sonnet35'',
             provider = ''anthropic'', contextWindow = 200000, outputLength = 8192\<rparr>"

definition gpt4omini :: model where
  "gpt4omini = \<lparr>name = ''gpt-4o-mini'', nickName = ''4omini'',
                provider = ''openai'', contextWindow = 128000, outputLength = 4096\<rparr>"

text \<open>
  Stand-ins for the two built-ins in the sample environment. Lower-casing maps the
  letters \<^verbatim>\<open>A\<close> to \<^verbatim>\<open>Z\<close> and the Kelvin sign (U+212A, to \<^verbatim>\<open>k\<close>) and leaves every other code
  unit as it is. Trimming removes the white space and the line terminators of
  ECMAScript: U+0009 to U+000D, U+0020, U+00A0, U+1680, U+2000 to U+200A, U+2028,
  U+2029, U+202F, U+205F, U+3000 and U+FEFF.
\<close>

definition sampleLowerCase :: "jsString \<Rightarrow> jsString" where
  "sampleLowerCase s =
     map (\<lambda>u. if 65 \<le> u \<and> u \<le> 90 then u + 32 else if u = 8490 then 107 else u) s"

definition whiteSpace :: "16 word \<Rightarrow> bool" where
  "whiteSpace u =
     (u \<in> {9, 10, 11, 12, 13, 32, 160, 5760, 8232, 8233, 8239, 8287, 12288, 65279} \<or>
      (8192 \<le> u \<and> u \<le> 8202))"

definition sampleTrim :: "jsString \<Rightarrow> jsString" where
  "sampleTrim s = rev (dropWhile whiteSpace (rev (dropWhile whiteSpace s)))"

definition sampleEnv :: "string \<Rightarrow> (string, string list) env" where
  "sampleEnv task =
     \<lparr>models = [sonnet, gpt4omini],
      preferredVerifierModel = sonnet,
      revertLastChanges = None,
      processFiles = (\<lambda>inputs includeImports. Inr \<lparr>code = ''<1>x'', count = length inputs\<rparr>),
      writeFileSync = (\<lambda>path text. None),
      checkAPIKey = (\<lambda>ks p. p \<in> set ks),
      getAndSetAPIKey = (\<lambda>p ks. Inr (p # ks)),
      countTokens = (\<lambda>s. int (length s)),
      taskPrompt = (\<lambda>t. t),
      confirm = Inr True,
      input = Inr (units task),
      toLowerCase = sampleLowerCase,
      trim = sampleTrim,
      askAI = (\<lambda>code' question name' provider'. ([''yes''], None)),
      getAIEditsFromClaude = (\<lambda>code' task' name'. Inr ''claude-stream''),
      getAIEditsFromGPT = (\<lambda>code' task' name'. Inr ''gpt-stream''),
      getAIEditsFromFireworks = (\<lambda>code' task' name'. Inr ''fireworks-stream''),
      verifyEditStream = (\<lambda>s p. Inr (s @ ''/verified-by-'' @ p)),
      processEditStream = (\<lambda>s. None)\<rparr>"

text \<open>The sample environment with a task given by its code units.\<close>

definition sampleEnvEntering :: "jsString \<Rightarrow> (string, string list) env" where
  "sampleEnvEntering task = (sampleEnv [])\<lparr>input := Inr task\<rparr>"

text \<open>
  The task \<^verbatim>\<open>as\<close>, Kelvin sign, blank, no-break space, \<^verbatim>\<open>what\<close>, no-break space.
\<close>

definition kelvinTask :: jsString where
  "kelvinTask = [97, 115, 8490, 32, 160] @ units ''what'' @ [160]"

subsection \<open>Classifying calls\<close>

text \<open>
  The calls that belong to the edit pipeline: asking a provider for edits, constructing
  the \<^verbatim>\<open>EditProcessor\<close>, the verification pass and the application of a stream.
\<close>

fun isPipelineCall :: "'s event \<Rightarrow> bool" where
  "isPipelineCall (GetAIEditsFromClaude c t n) = True"
| "isPipelineCall (GetAIEditsFromGPT c t n) = True"
| "isPipelineCall (GetAIEditsFromFireworks c t n) = True"
| "isPipelineCall NewEditProcessor = True"
| "isPipelineCall (VerifyEditStream s p) = True"
| "isPipelineCall (ProcessEditStream s) = True"
| "isPipelineCall e = False"

text \<open>
  The calls through which the driver changes files on disk: the revert of the history
  store, its own \<^verbatim>\<open>fs.writeFileSync\<close>, and the application of an edit stream.
\<close>

fun writesFiles :: "'s event \<Rightarrow> bool" where
  "writesFiles RevertLastChanges = True"
| "writesFiles (WriteFileSync p c) = True"
| "writesFiles (ProcessEditStream s) = True"
| "writesFiles e = False"

fun isVerify :: "'s event \<Rightarrow> bool" where
  "isVerify (VerifyEditStream s p) = True"
| "isVerify e = False"

fun isApply :: "'s event \<Rightarrow> bool" where
  "isApply (ProcessEditStream s) = True"
| "isApply e = False"

subsection \<open>Statements about positions in a trace\<close>

text \<open>
  \<open>guarded P G t\<close>: wherever a call \<open>e\<close> with \<open>P e\<close> stands in the trace \<open>t\<close>, the calls
  \<open>pre\<close> made before it and \<open>e\<close> satisfy \<open>G pre e\<close>. \<open>prefixClosed G\<close>: \<open>G\<close> still holds
  when earlier calls are put in front.
\<close>

definition guarded :: "('e \<Rightarrow> bool) \<Rightarrow> ('e list \<Rightarrow> 'e \<Rightarrow> bool) \<Rightarrow> 'e list \<Rightarrow> bool" where
  "guarded P G t = (\<forall>pre e post. t = pre @ e # post \<longrightarrow> P e \<longrightarrow> G pre e)"

definition prefixClosed :: "('e list \<Rightarrow> 'e \<Rightarrow> bool) \<Rightarrow> bool" where
  "prefixClosed G = (\<forall>t pre e. G pre e \<longrightarrow> G (t @ pre) e)"

text \<open>
  The verification call directly follows the key check for the preferred verifier's
  provider and is given that provider when the check answered yes, the selected
  model's provider otherwise.
\<close>

definition verifierGuard :: "('s, 'k) env \<Rightarrow> string list \<Rightarrow> 's event list \<Rightarrow> 's event \<Rightarrow> bool" where
  "verifierGuard env args pre e =
     (\<exists>b pre' s m. fst (selectModel (models env) args) = Some m \<and>
        pre = pre' @ [CheckAPIKey (provider (preferredVerifierModel env)) b] \<and>
        e = VerifyEditStream s (if b then provider (preferredVerifierModel env) else provider m))"

text \<open>The stream handed to the applier is the result of an earlier verification call.\<close>

definition applyGuard :: "('s, 'k) env \<Rightarrow> 's event list \<Rightarrow> 's event \<Rightarrow> bool" where
  "applyGuard env pre e =
     (\<exists>s p x. e = ProcessEditStream x \<and> VerifyEditStream s p \<in> set pre \<and>
        verifyEditStream env s p = Inr x)"

section \<open>History store and applier, from the specification\<close>

text \<open>
  The modules \<^verbatim>\<open>edit-processor\<close> and \<^verbatim>\<open>edit-history\<close>, which \<^verbatim>\<open>app.ts\<close> calls through
  \<^verbatim>\<open>EditProcessor.processEditStream\<close> and \<^verbatim>\<open>revertLastChanges\<close>, are not among the
  sources. The definitions of this section follow the specification's sections 3, 4.4,
  4.5 and 7 instead.
\<close>

text \<open>
  Modelled from the spec: the \<^verbatim>\<open>HistoryEntry\<close> of section 3 (the history module is
  missing): a timestamp and, for each affected path, the full text of the file before
  the run, in the order the files were captured.
\<close>

record historyEntry =
  timestamp :: nat
  affectedFiles :: "(string \<times> string) list"

text \<open>
  Modelled from the spec: what a run and a revert read and change (the file system
  access of the applier and of the history module is missing): the files on disk, by
  path, and the single slot of the history store, which lasts between invocations.
\<close>

record disk =
  files :: "string \<rightharpoonup> string"
  history :: "historyEntry option"

text \<open>
  Modelled from the spec: the \<^verbatim>\<open>EditPacket\<close> and \<^verbatim>\<open>VerificationResult\<close> of section 3
  (the packet types of the missing modules).
\<close>

datatype operation = ReplaceLines | InsertAfterLine | DeleteLines

record editPacket =
  filePath :: string
  operation :: operation
  startLine :: nat
  endLine :: "nat option"
  newContent :: "string list"
  rationale :: "string option"

datatype verificationResult = Accepted editPacket | Corrected editPacket | RejectedEdit string

text \<open>
  Modelled from the spec: the counts of section 4.4 that the missing applier reports.
\<close>

record applyReport =
  applied :: nat
  skipped :: nat
  failed :: nat

text \<open>
  Modelled from the spec: the missing applier consumes the accepted and the corrected
  packets (section 4.4); a rejected one carries no packet and is counted as skipped.
\<close>

fun packetOf :: "verificationResult \<Rightarrow> editPacket option" where
  "packetOf (Accepted p) = Some p"
| "packetOf (Corrected p) = Some p"
| "packetOf (RejectedEdit reason) = None"

text \<open>
  Modelled from the spec: the order in which the missing applier takes the packets of
  one file, descending by start line (section 4.4); packets with the same start line
  keep their order.
\<close>

fun insertDescending :: "editPacket \<Rightarrow> editPacket list \<Rightarrow> editPacket list" where
  "insertDescending p [] = [p]"
| "insertDescending p (q # qs) =
     (if startLine q \<le> startLine p then p # q # qs else q # insertDescending p qs)"

definition descending :: "editPacket list \<Rightarrow> editPacket list" where
  "descending ps = foldr insertDescending ps []"

text \<open>
  Modelled from the spec: the capture the missing applier makes before the first packet
  that touches a file (section 4.4): the file's full text goes into the current history
  entry, once.
\<close>

definition captureFile :: "string \<Rightarrow> disk \<Rightarrow> disk" where
  "captureFile f d =
     (case (files d f, history d) of
        (Some text, Some h) \<Rightarrow>
          if f \<in> fst ` set (affectedFiles h) then d
          else d\<lparr>history := Some (h\<lparr>affectedFiles := affectedFiles h @ [(f, text)]\<rparr>)\<rparr>
      | _ \<Rightarrow> d)"

text \<open>
  Modelled from the spec: one packet applied by the missing applier. \<open>writable\<close> says
  for which paths a write succeeds; a missing file or a failed write is an
  \<^verbatim>\<open>ApplyError\<close>, counted and not fatal, and what was written stays written (sections
  4.4 and 7). \<open>rewrite\<close> is the text a packet makes of a file's text; the specification
  fixes it by example only, and it is left open here.
\<close>

definition applyPacket ::
  "(string \<Rightarrow> bool) \<Rightarrow> (editPacket \<Rightarrow> string \<Rightarrow> string) \<Rightarrow> disk \<times> applyReport \<Rightarrow> editPacket
     \<Rightarrow> disk \<times> applyReport" where
  "applyPacket writable rewrite st p =
     (case st of (d, r) \<Rightarrow>
        (case files d (filePath p) of
           None \<Rightarrow> (d, r\<lparr>failed := failed r + 1\<rparr>)
         | Some text \<Rightarrow>
             if writable (filePath p)
             then (d\<lparr>files := (files d)(filePath p \<mapsto> rewrite p text)\<rparr>,
                   r\<lparr>applied := applied r + 1\<rparr>)
             else (d, r\<lparr>failed := failed r + 1\<rparr>)))"

text \<open>
  Modelled from the spec: all packets of one file, applied by the missing applier after
  the capture, bottom of the file first (section 4.4).
\<close>

definition applyFile ::
  "(string \<Rightarrow> bool) \<Rightarrow> (editPacket \<Rightarrow> string \<Rightarrow> string) \<Rightarrow> editPacket list
     \<Rightarrow> disk \<times> applyReport \<Rightarrow> string \<Rightarrow> disk \<times> applyReport" where
  "applyFile writable rewrite ps st f =
     foldl (applyPacket writable rewrite) (captureFile f (fst st), snd st)
       (descending (filter (\<lambda>p. filePath p = f) ps))"

text \<open>
  Modelled from the spec: a run of the missing \<^verbatim>\<open>EditProcessor.processEditStream\<close>
  (section 4.4). The history entry is created when there is a first packet to write,
  and takes the place of the entry of an earlier run (sections 3 and 5).
\<close>

definition applyRun ::
  "nat \<Rightarrow> (string \<Rightarrow> bool) \<Rightarrow> (editPacket \<Rightarrow> string \<Rightarrow> string) \<Rightarrow> verificationResult list
     \<Rightarrow> disk \<Rightarrow> disk \<times> applyReport" where
  "applyRun now writable rewrite results d =
     (let ps = List.map_filter packetOf results;
          report = \<lparr>applied = 0, skipped = length results - length ps, failed = 0\<rparr> in
      if ps = [] then (d, report)
      else foldl (applyFile writable rewrite ps)
             (d\<lparr>history := Some \<lparr>timestamp = now, affectedFiles = []\<rparr>\<rparr>, report)
             (remdups (map filePath ps)))"

text \<open>
  Modelled from the spec: what the missing \<^verbatim>\<open>revertLastChanges\<close> reports (sections 4.5
  and 7): nothing recorded, a file restored, or a \<^verbatim>\<open>RevertError\<close> for a file.
\<close>

datatype revertReport = NothingToRevert | Restored string | RevertError string

text \<open>
  Modelled from the spec: one file restored by the missing \<^verbatim>\<open>revertLastChanges\<close>
  (section 4.5): the snapshot is written over the file and the restored length is
  checked; a file that no longer exists or cannot be written is a \<^verbatim>\<open>RevertError\<close>.
\<close>

definition revertFile ::
  "(string \<Rightarrow> bool) \<Rightarrow> disk \<times> revertReport list \<Rightarrow> string \<times> string \<Rightarrow> disk \<times> revertReport list" where
  "revertFile writable st entry =
     (case (st, entry) of ((d, out), (f, snapshot)) \<Rightarrow>
        (case files d f of
           None \<Rightarrow> (d, out @ [RevertError f])
         | Some _ \<Rightarrow>
             if writable f then
               (let d' = d\<lparr>files := (files d)(f \<mapsto> snapshot)\<rparr> in
                if map_option length (files d' f) = Some (length snapshot)
                then (d', out @ [Restored f])
                else (d', out @ [RevertError f]))
             else (d, out @ [RevertError f])))"

text \<open>
  Modelled from the spec: the missing \<^verbatim>\<open>revertLastChanges\<close> (section 4.5): every
  affected file is restored, the outcome is reported per file, and the store is
  cleared; with nothing recorded it reports so and changes nothing.
\<close>

definition revert :: "(string \<Rightarrow> bool) \<Rightarrow> disk \<Rightarrow> disk \<times> revertReport list" where
  "revert writable d =
     (case history d of
        None \<Rightarrow> (d, [NothingToRevert])
      | Some h \<Rightarrow>
          (case foldl (revertFile writable) (d, []) (affectedFiles h) of
             (d', out) \<Rightarrow> (d'\<lparr>history := None\<rparr>, out)))"

text \<open>A sample disk and a sample packet.\<close>

definition samplePacket :: "string \<Rightarrow> nat \<Rightarrow> editPacket" where
  "samplePacket f n = \<lparr>filePath = f, operation = DeleteLines, startLine = n, endLine = Some n,
            newContent = [], rationale = None\<rparr>"

definition sampleDisk :: disk where
  "sampleDisk = \<lparr>files = [''a.txt'' \<mapsto> ''one'', ''b.txt'' \<mapsto> ''two''], history = None\<rparr>"

definition sampleResults :: "verificationResult list" where
  "sampleResults = [Accepted (samplePacket ''a.txt'' 2), RejectedEdit ''wrong anchor'',
                    Corrected (samplePacket ''b.txt'' 1), Accepted (samplePacket ''a.txt'' 5)]"

section \<open>Packet stream normalizer, from the specification\<close>

text \<open>
  The normalizer lives in the provider clients (\<^verbatim>\<open>call-ai-claude\<close>, \<^verbatim>\<open>call-ai-gpt\<close>,
  \<^verbatim>\<open>call-fireworks\<close>), which are not among the sources. The definitions of this section
  follow the specification's section 4.2. The specification does not give the format of
  a record; it says that a record ends with a terminating marker and that a record may
  be malformed. The marker \<open>m\<close> and the parser of one record are therefore parameters.
\<close>

text \<open>
  Modelled from the spec: the search of the missing normalizer for the first
  terminating marker: the text before it and the text after it.
\<close>

fun cutAtMarker :: "string \<Rightarrow> string \<Rightarrow> (string \<times> string) option" where
  "cutAtMarker m [] = None"
| "cutAtMarker m (c # cs) =
     (if startsWith (c # cs) m then Some ([], drop (length m) (c # cs))
      else (case cutAtMarker m cs of
              None \<Rightarrow> None
            | Some (r, rest) \<Rightarrow> Some (c # r, rest)))"

lemma cutAtMarker_split:
  "cutAtMarker m s = Some (r, rest) \<Longrightarrow> s = r @ m @ rest"
proof (induction s arbitrary: r)
  case Nil
  then show ?case by simp
next
  case (Cons c cs)
  show ?case
  proof (cases "startsWith (c # cs) m")
    case True
    with Cons.prems have "r = []" "rest = drop (length m) (c # cs)" by simp_all
    moreover from True have "take (length m) (c # cs) = m" by (simp add: startsWith_def)
    ultimately show ?thesis using append_take_drop_id [of "length m" "c # cs"] by simp
  next
    case False
    with Cons.prems obtain r' where c: "cutAtMarker m cs = Some (r', rest)" and r: "r = c # r'"
      by (auto split: option.splits)
    from Cons.IH [OF c] r show ?thesis by simp
  qed
qed

lemma cutAtMarker_shorter:
  "cutAtMarker m s = Some (r, rest) \<Longrightarrow> m \<noteq> [] \<Longrightarrow> length rest < length s"
  using cutAtMarker_split [of m s r rest] by (cases m) auto

text \<open>
  Modelled from the spec: the scan of the missing normalizer over the logical text
  stream: the complete records, in the order of their terminating markers, and the
  unconsumed trailing partial text. An empty marker ends no record.
\<close>

function scanRecords :: "string \<Rightarrow> string \<Rightarrow> string list \<times> string" where
  "scanRecords m s =
     (if m = [] then ([], s)
      else (case cutAtMarker m s of
              None \<Rightarrow> ([], s)
            | Some (r, rest) \<Rightarrow>
                (case scanRecords m rest of (rs, tail) \<Rightarrow> (r # rs, tail))))"
  by pat_completeness auto
termination
  by (relation "measure (\<lambda>(m, s). length s)") (auto dest: cutAtMarker_shorter)

declare scanRecords.simps [simp del]

text \<open>
  Modelled from the spec: the state the missing normalizer keeps across calls: the
  unconsumed trailing text and the count of malformed records skipped so far.
\<close>

record normalizer =
  buffer :: string
  malformed :: nat

text \<open>
  Modelled from the spec: one incoming fragment handled by the missing normalizer: the
  fragment is appended to the retained text, every record now complete is parsed and
  emitted or, when malformed, skipped and counted, and the rest is retained.
\<close>

definition feed ::
  "string \<Rightarrow> (string \<Rightarrow> editPacket option) \<Rightarrow> normalizer \<Rightarrow> string \<Rightarrow> editPacket list \<times> normalizer" where
  "feed m parseRecord n fragment =
     (case scanRecords m (buffer n @ fragment) of
        (records, rest) \<Rightarrow>
          (List.map_filter parseRecord records,
           \<lparr>buffer = rest,
            malformed = malformed n + length (filter (\<lambda>r. parseRecord r = None) records)\<rparr>))"

text \<open>Modelled from the spec: the missing normalizer fed a sequence of fragments.\<close>

fun feedAll ::
  "string \<Rightarrow> (string \<Rightarrow> editPacket option) \<Rightarrow> normalizer \<Rightarrow> string list
     \<Rightarrow> editPacket list \<times> normalizer" where
  "feedAll m parseRecord n [] = ([], n)"
| "feedAll m parseRecord n (fragment # fragments) =
     (case feed m parseRecord n fragment of
        (out, n') \<Rightarrow>
          (case feedAll m parseRecord n' fragments of
             (outs, n'') \<Rightarrow> (out @ outs, n'')))"

text \<open>Modelled from the spec: the missing normalizer run from its initial state.\<close>

definition normalize ::
  "string \<Rightarrow> (string \<Rightarrow> editPacket option) \<Rightarrow> string list \<Rightarrow> editPacket list \<times> normalizer" where
  "normalize m parseRecord fragments = feedAll m parseRecord \<lparr>buffer = [], malformed = 0\<rparr> fragments"

text \<open>
  Modelled from the spec: the complete records of a whole stream, and a well-formed
  stream, one whose complete records all parse (the notions of section 8, which the
  missing normalizer is measured against).
\<close>

definition completeRecords :: "string \<Rightarrow> string \<Rightarrow> string list" where
  "completeRecords m stream = fst (scanRecords m stream)"

definition wellFormed :: "string \<Rightarrow> (string \<Rightarrow> editPacket option) \<Rightarrow> string \<Rightarrow> bool" where
  "wellFormed m parseRecord stream = list_all (\<lambda>r. parseRecord r \<noteq> None) (completeRecords m stream)"

text \<open>A sample parser: a record is a path, and \<^verbatim>\<open>?\<close> is malformed.\<close>

definition pathPacket :: "string \<Rightarrow> editPacket option" where
  "pathPacket r = (if r = ''?'' then None else
     Some \<lparr>filePath = r, operation = DeleteLines, startLine = 1, endLine = Some 1,
            newContent = [], rationale = None\<rparr>)"

section \<open>Properties of the driver\<close>

lemma findModel_Some:
  "findModel ms n = Some m \<Longrightarrow> m \<in> set ms \<and> nickName m = n"
  by (induction ms) (auto split: if_splits)

lemma findModel_None:
  "(findModel ms n = None) = (n \<notin> nickName ` set ms)"
  by (induction ms) auto

lemmas step_defs = andThen_def await_def perform_def emit_def exit_def finish_def

subsection \<open>Traces of the parts of a run\<close>

lemma guarded_quiet: "\<forall>e\<in>set t. \<not> P e \<Longrightarrow> guarded P G t"
  by (auto simp: guarded_def)

lemma guarded_append_left:
  assumes q: "\<forall>e\<in>set t1. \<not> P e" and g: "guarded P G t2"
    and mono: "\<And>pre e. G pre e \<Longrightarrow> G (t1 @ pre) e"
  shows "guarded P G (t1 @ t2)"
  unfolding guarded_def
proof (intro allI impI)
  fix pre e post
  assume eq: "t1 @ t2 = pre @ e # post" and pe: "P e"
  from eq obtain us where
    "(t1 = pre @ us \<and> us @ t2 = e # post) \<or> (t1 @ us = pre \<and> t2 = us @ e # post)"
    by (auto simp: append_eq_append_conv2)
  then show "G pre e"
  proof
    assume a: "t1 = pre @ us \<and> us @ t2 = e # post"
    show ?thesis
    proof (cases us)
      case Nil
      with a have "t2 = [] @ e # post" "pre = t1" by auto
      with g pe have "G [] e" unfolding guarded_def by blast
      from mono [OF this] \<open>pre = t1\<close> show ?thesis by simp
    next
      case (Cons u us')
      with a have "e \<in> set t1" by auto
      with q pe show ?thesis by blast
    qed
  next
    assume a: "t1 @ us = pre \<and> t2 = us @ e # post"
    with g pe have "G us e" unfolding guarded_def by blast
    from mono [OF this] a show ?thesis by auto
  qed
qed

lemma guarded_append_right:
  assumes g: "guarded P G t1" and q: "\<forall>e\<in>set t2. \<not> P e"
  shows "guarded P G (t1 @ t2)"
  unfolding guarded_def
proof (intro allI impI)
  fix pre e post
  assume eq: "t1 @ t2 = pre @ e # post" and pe: "P e"
  from eq obtain us where
    "(t1 = pre @ us \<and> us @ t2 = e # post) \<or> (t1 @ us = pre \<and> t2 = us @ e # post)"
    by (auto simp: append_eq_append_conv2)
  then show "G pre e"
  proof
    assume a: "t1 = pre @ us \<and> us @ t2 = e # post"
    show ?thesis
    proof (cases us)
      case Nil
      with a have "e \<in> set t2" by auto
      with q pe show ?thesis by blast
    next
      case (Cons u us')
      with a have "t1 = pre @ e # us'" by auto
      with g pe show ?thesis unfolding guarded_def by blast
    qed
  next
    assume a: "t1 @ us = pre \<and> t2 = us @ e # post"
    then have "e \<in> set t2" by auto
    with q pe show ?thesis by blast
  qed
qed

lemma fst_andThen:
  "fst (andThen m f) = (case snd m of Inl out \<Rightarrow> fst m | Inr a \<Rightarrow> fst m @ fst (f a))"
  by (cases m) (auto simp: andThen_def split: sum.splits prod.splits)

lemma quiet_andThen:
  assumes "\<forall>e\<in>set (fst m). \<not> P e" and "\<And>a. snd m = Inr a \<Longrightarrow> \<forall>e\<in>set (fst (f a)). \<not> P e"
  shows "\<forall>e\<in>set (fst (andThen m f)). \<not> P e"
  using assms by (auto simp: fst_andThen split: sum.splits)

lemma guarded_andThen_left:
  assumes mono: "prefixClosed G"
    and q: "\<forall>e\<in>set (fst m). \<not> P e"
    and g: "\<And>a. snd m = Inr a \<Longrightarrow> guarded P G (fst (f a))"
  shows "guarded P G (fst (andThen m f))"
proof (cases "snd m")
  case (Inl out)
  then show ?thesis using q by (simp add: fst_andThen guarded_quiet)
next
  case (Inr a)
  have m': "\<And>pre e. G pre e \<Longrightarrow> G (fst m @ pre) e"
    using mono by (simp add: prefixClosed_def)
  have "guarded P G (fst m @ fst (f a))"
    by (rule guarded_append_left [OF q g [OF Inr] m'])
  with Inr show ?thesis by (simp add: fst_andThen)
qed

lemma guarded_andThen_right:
  assumes "guarded P G (fst m)"
    and "\<And>a. snd m = Inr a \<Longrightarrow> \<forall>e\<in>set (fst (f a)). \<not> P e"
  shows "guarded P G (fst (andThen m f))"
proof (cases "snd m")
  case (Inl out)
  then show ?thesis using assms(1) by (simp add: fst_andThen)
next
  case (Inr a)
  then show ?thesis
    using guarded_append_right [OF assms(1) assms(2) [OF Inr]]
    by (simp add: fst_andThen)
qed


lemma core_is_pipeline: "isVerify e \<or> isApply e \<Longrightarrow> isPipelineCall e"
  by (cases e) auto

lemma emit_trace: "fst (emit es) = es" "snd (emit es) = Inr ()"
  by (simp_all add: emit_def)

lemma await_trace: "fst (await c r) = [c]"
  by (simp add: await_def)

lemma await_value: "snd (await c r) = Inr v \<Longrightarrow> r = Inr v"
  by (auto simp: await_def split: sum.splits)

lemma perform_trace: "fst (perform c r) = [c]"
  by (simp add: perform_def)

lemma exit_trace: "fst (exit n) = []"
  by (simp add: exit_def)

lemma listAvailableModels_calm:
  "\<forall>e\<in>set (fst (listAvailableModels env)). \<not> isPipelineCall e \<and> \<not> writesFiles e \<and> e \<noteq> Input"
  by (simp add: listAvailableModels_def emit_trace)

lemma checkAndSetAPIKey_calm:
  "\<forall>e\<in>set (fst (checkAndSetAPIKey env ks m)). \<not> isPipelineCall e \<and> \<not> writesFiles e \<and> e \<noteq> Input"
  by (auto simp: checkAndSetAPIKey_def Let_def fst_andThen emit_trace await_trace
      split: sum.splits if_splits)

lemma overflowGate_calm:
  "\<forall>e\<in>set (fst (overflowGate env n m)). \<not> isPipelineCall e \<and> \<not> writesFiles e \<and> e \<noteq> Input"
  by (auto simp: overflowGate_def Let_def fst_andThen emit_trace await_trace exit_trace
      split: sum.splits if_splits)

lemma askBranch_calm:
  "\<forall>e\<in>set (fst (askBranch env m c task)). \<not> isPipelineCall e \<and> \<not> writesFiles e"
  by (auto simp: askBranch_def Let_def fst_andThen emit_trace
      split: sum.splits if_splits prod.splits option.splits)

lemma getAIEdits_calm:
  "\<forall>e\<in>set (fst (getAIEdits env m c task)). \<not> isVerify e \<and> \<not> isApply e \<and> \<not> writesFiles e"
  by (auto simp: getAIEdits_def fst_andThen emit_trace await_trace exit_trace
      split: sum.splits if_splits)

lemma pipeline_guarded:
  assumes P: "\<forall>e. P e \<longrightarrow> isVerify e \<or> isApply e"
    and mono: "prefixClosed G"
    and core: "\<And>ks' s. guarded P G (fst (editPipeline env ks' m s))"
  shows "guarded P G (fst (andThen (getAIEdits env m c task) (editPipeline env ks' m)))"
proof (rule guarded_andThen_left [OF mono])
  show "\<forall>e\<in>set (fst (getAIEdits env m c task)). \<not> P e"
    using getAIEdits_calm [of env m c task] P by blast
  show "\<And>a. guarded P G (fst (editPipeline env ks' m a))" by (rule core)
qed

lemma branch_guarded:
  assumes P: "\<forall>e. P e \<longrightarrow> isVerify e \<or> isApply e"
    and mono: "prefixClosed G"
    and core: "\<And>ks' s. guarded P G (fst (editPipeline env ks' m s))"
  shows "guarded P G (fst (andThen
           (if isQuestion env task then askBranch env m c task
            else andThen (getAIEdits env m c task) (editPipeline env ks' m))
           (\<lambda>_. emit [ConsoleLog LeaveAStar])))"
proof (rule guarded_andThen_right)
  show "guarded P G (fst (if isQuestion env task then askBranch env m c task
            else andThen (getAIEdits env m c task) (editPipeline env ks' m)))"
  proof (cases "isQuestion env task")
    case True
    have "\<forall>e\<in>set (fst (askBranch env m c task)). \<not> P e"
      using askBranch_calm [of env m c task] P core_is_pipeline by blast
    with True show ?thesis by (simp add: guarded_quiet)
  next
    case False
    then show ?thesis using pipeline_guarded [OF P mono core] by simp
  qed
  have "\<not> P (ConsoleLog LeaveAStar)"
    using spec [OF P, of "ConsoleLog LeaveAStar"] by simp
  then show "\<And>a. \<forall>e\<in>set (fst (emit [ConsoleLog LeaveAStar])). \<not> P e"
    by (simp add: emit_trace)
qed

lemma listAvailableModels_quiet:
  assumes "\<forall>e. \<not> isPipelineCall e \<longrightarrow> \<not> P e"
  shows "\<forall>e\<in>set (fst (listAvailableModels env)). \<not> P e"
  using assms listAvailableModels_calm [of env] by blast

lemma checkAndSetAPIKey_quiet:
  assumes "\<forall>e. \<not> isPipelineCall e \<longrightarrow> \<not> P e"
  shows "\<forall>e\<in>set (fst (checkAndSetAPIKey env ks m)). \<not> P e"
  using assms checkAndSetAPIKey_calm [of env ks m] by blast

lemma overflowGate_quiet:
  assumes "\<forall>e. \<not> isPipelineCall e \<longrightarrow> \<not> P e"
  shows "\<forall>e\<in>set (fst (overflowGate env n m)). \<not> P e"
  using assms overflowGate_calm [of env n m] by blast

lemma emit_quiet:
  assumes "\<forall>e\<in>set es. \<not> P e"
  shows "\<forall>e\<in>set (fst (emit es)). \<not> P e"
  using assms by (simp add: emit_trace)

lemma await_quiet:
  assumes "\<not> P c"
  shows "\<forall>e\<in>set (fst (await c r)). \<not> P e"
  using assms by (simp add: await_trace)

lemma session_guarded:
  assumes P: "\<forall>e. P e \<longrightarrow> isVerify e \<or> isApply e"
    and mono: "prefixClosed G"
    and core: "\<And>ks' s. guarded P G (fst (editPipeline env ks' m s))"
  shows "guarded P G (fst (session env ks (Some m) pf))"
proof -
  have np: "\<forall>e. \<not> isPipelineCall e \<longrightarrow> \<not> P e"
    using P core_is_pipeline by blast
  have log: "\<not> P (ConsoleLog msg)" for msg
    using np by simp
  have inp: "\<not> P Input"
    using np by simp
  show ?thesis
    unfolding session_def Let_def
    apply (rule guarded_andThen_left [OF mono])
    subgoal by (rule emit_quiet) (simp add: log)
    apply (rule guarded_andThen_left [OF mono])
    subgoal by (rule listAvailableModels_quiet [OF np])
    apply (rule guarded_andThen_left [OF mono])
    subgoal by (simp add: log)
    apply (rule guarded_andThen_left [OF mono])
    subgoal by (rule checkAndSetAPIKey_quiet [OF np])
    apply (rule guarded_andThen_left [OF mono])
    subgoal by (rule overflowGate_quiet [OF np])
    apply (rule guarded_andThen_left [OF mono])
    subgoal by (rule emit_quiet) (simp add: log)
    apply (rule guarded_andThen_left [OF mono])
    subgoal by (rule await_quiet [where P = P, OF inp])
    apply (clarsimp split del: if_split)
    apply (rule branch_guarded [OF P mono core])
    done
qed

lemma session_none:
  "fst (session env ks None pf)
     = [ConsoleLog Welcome, ConsoleLog (AvailableModels (map nickName (models env))),
        ConsoleLog AppendNicknameHint]"
  by (simp add: session_def listAvailableModels_def andThen_def emit_def)

lemma fst_finish: "fst (finish m) = fst m"
  by (cases m) (auto simp: finish_def split: sum.splits)

lemma main_revert:
  "isRevert args \<Longrightarrow> fst (main env ks args) = [RevertLastChanges]"
  by (simp add: main_def fst_finish perform_trace)

lemma main_empty:
  "\<not> isRevert args \<Longrightarrow> selectModel (models env) args = (sel, []) \<Longrightarrow>
   fst (main env ks args) = [ConsoleError NoFilesOrFolders]"
  by (simp add: main_def fst_finish fst_andThen emit_trace exit_trace)

lemma printCode_trace:
  "set (fst (andThen (perform (WriteFileSync f c) r)
                (\<lambda>_. andThen (emit [ConsoleLog SavedCompiledCode]) (\<lambda>_. exit 0))))
     \<subseteq> {WriteFileSync f c, ConsoleLog SavedCompiledCode}"
  by (auto simp: fst_andThen perform_trace emit_trace exit_trace split: sum.splits)

lemma main_files:
  "\<not> isRevert args \<Longrightarrow> selectModel (models env) args = (sel, inputs) \<Longrightarrow> inputs \<noteq> [] \<Longrightarrow>
   fst (main env ks args)
     = fst (andThen
            (await (ProcessFiles inputs (''-a'' \<in> set args))
                   (processFiles env inputs (''-a'' \<in> set args)))
            (\<lambda>pf.
               if ''-p'' \<in> set args then
                 andThen (perform (WriteFileSync ''compiled-code.txt'' (code pf))
                           (writeFileSync env ''compiled-code.txt'' (code pf)))
                   (\<lambda>_. andThen (emit [ConsoleLog SavedCompiledCode]) (\<lambda>_. exit 0))
               else session env ks sel pf))"
  by (simp add: main_def fst_finish Let_def)

lemma main_guarded:
  assumes P: "\<forall>e. P e \<longrightarrow> isVerify e \<or> isApply e"
    and mono: "prefixClosed G"
    and core: "\<And>m ks' s. fst (selectModel (models env) args) = Some m
                 \<Longrightarrow> guarded P G (fst (editPipeline env ks' m s))"
  shows "guarded P G (fst (main env ks args))"
proof (cases "isRevert args")
  case True
  have "\<not> P RevertLastChanges" using spec [OF P, of RevertLastChanges] by simp
  then show ?thesis using True by (simp add: main_revert guarded_quiet)
next
  case False
  obtain sel inputs where sm: "selectModel (models env) args = (sel, inputs)"
    by (cases "selectModel (models env) args")
  have np: "\<forall>e. \<not> isPipelineCall e \<longrightarrow> \<not> P e"
    using P core_is_pipeline by blast
  show ?thesis
  proof (cases "inputs = []")
    case True
    have "\<not> P (ConsoleError NoFilesOrFolders)"
      using spec [OF np, of "ConsoleError NoFilesOrFolders"] by simp
    then show ?thesis using True False sm by (simp add: main_empty guarded_quiet)
  next
    case ne: False
    have sess: "guarded P G (fst (session env ks sel pf))" for pf
    proof (cases sel)
      case None
      have "\<not> P (ConsoleLog msg)" for msg
        using spec [OF np, of "ConsoleLog msg"] by simp
      then show ?thesis using None by (simp add: session_none guarded_quiet)
    next
      case (Some m)
      with sm have "fst (selectModel (models env) args) = Some m" by simp
      from session_guarded [OF P mono core [OF this]] Some show ?thesis by simp
    qed
    have "guarded P G (fst (andThen
            (await (ProcessFiles inputs (''-a'' \<in> set args))
                   (processFiles env inputs (''-a'' \<in> set args)))
            (\<lambda>pf.
               if ''-p'' \<in> set args then
                 andThen (perform (WriteFileSync ''compiled-code.txt'' (code pf))
                           (writeFileSync env ''compiled-code.txt'' (code pf)))
                   (\<lambda>_. andThen (emit [ConsoleLog SavedCompiledCode]) (\<lambda>_. exit 0))
               else session env ks sel pf)))"
    proof (rule guarded_andThen_left [OF mono])
      have "\<not> P (ProcessFiles inputs (''-a'' \<in> set args))"
        using spec [OF np, of "ProcessFiles inputs (''-a'' \<in> set args)"] by simp
      then show "\<forall>e\<in>set (fst (await (ProcessFiles inputs (''-a'' \<in> set args))
                   (processFiles env inputs (''-a'' \<in> set args)))). \<not> P e"
        by (simp add: await_trace)
    next
      fix pf
      show "guarded P G (fst (if ''-p'' \<in> set args then
                 andThen (perform (WriteFileSync ''compiled-code.txt'' (code pf))
                           (writeFileSync env ''compiled-code.txt'' (code pf)))
                   (\<lambda>_. andThen (emit [ConsoleLog SavedCompiledCode]) (\<lambda>_. exit 0))
               else session env ks sel pf))"
      proof (cases "''-p'' \<in> set args")
        case True
        have a: "\<not> P (WriteFileSync ''compiled-code.txt'' (code pf))"
          using spec [OF np, of "WriteFileSync ''compiled-code.txt'' (code pf)"] by simp
        have b: "\<not> P (ConsoleLog SavedCompiledCode)"
          using spec [OF np, of "ConsoleLog SavedCompiledCode"] by simp
        have "\<forall>e\<in>set (fst (andThen (perform (WriteFileSync ''compiled-code.txt'' (code pf))
                           (writeFileSync env ''compiled-code.txt'' (code pf)))
                   (\<lambda>_. andThen (emit [ConsoleLog SavedCompiledCode]) (\<lambda>_. exit 0)))). \<not> P e"
          using a b printCode_trace [of "''compiled-code.txt''" "code pf"
              "writeFileSync env ''compiled-code.txt'' (code pf)"]
          by blast
        then have "guarded P G (fst (andThen (perform (WriteFileSync ''compiled-code.txt'' (code pf))
                           (writeFileSync env ''compiled-code.txt'' (code pf)))
                   (\<lambda>_. andThen (emit [ConsoleLog SavedCompiledCode]) (\<lambda>_. exit 0))))"
          by (rule guarded_quiet)
        with True show ?thesis by simp
      next
        case False
        then show ?thesis using sess by simp
      qed
    qed
    with False sm ne show ?thesis
      by (simp add: main_files)
  qed
qed

lemma editPipeline_trace:
  "fst (editPipeline env ks m s) =
     (let preferred = provider (preferredVerifierModel env);
          b = checkAPIKey env ks preferred;
          v = (if b then preferred else provider m) in
      [NewEditProcessor, CheckAPIKey preferred b, VerifyEditStream s v] @
      (case verifyEditStream env s v of Inl e \<Rightarrow> [] | Inr x \<Rightarrow> [ProcessEditStream x]))"
  by (simp add: editPipeline_def Let_def fst_andThen emit_trace await_def perform_trace
      split: sum.splits)

lemma verifierGuard_closed: "prefixClosed (verifierGuard env args)"
  unfolding prefixClosed_def verifierGuard_def
  by (metis append.assoc)

lemma applyGuard_closed: "prefixClosed (applyGuard env)"
  unfolding prefixClosed_def applyGuard_def
  by auto

lemma editPipeline_verifier:
  assumes "fst (selectModel (models env) args) = Some m"
  shows "guarded isVerify (verifierGuard env args) (fst (editPipeline env ks m s))"
  unfolding guarded_def
proof (intro allI impI)
  fix pre e post
  assume eq: "fst (editPipeline env ks m s) = pre @ e # post" and v: "isVerify e"
  let ?pref = "provider (preferredVerifierModel env)"
  let ?b = "checkAPIKey env ks ?pref"
  let ?v = "if ?b then ?pref else provider m"
  from eq v have "pre = [NewEditProcessor, CheckAPIKey ?pref ?b] \<and> e = VerifyEditStream s ?v"
    by (auto simp: editPipeline_trace Let_def Cons_eq_append_conv split: sum.splits)
  then show "verifierGuard env args pre e"
    unfolding verifierGuard_def using assms
    by (intro exI [of _ ?b] exI [of _ "[NewEditProcessor]"] exI [of _ s] exI [of _ m]) simp
qed

lemma editPipeline_apply:
  "guarded isApply (applyGuard env) (fst (editPipeline env ks m s))"
  unfolding guarded_def
proof (intro allI impI)
  fix pre e post
  assume eq: "fst (editPipeline env ks m s) = pre @ e # post" and v: "isApply e"
  let ?pref = "provider (preferredVerifierModel env)"
  let ?b = "checkAPIKey env ks ?pref"
  let ?v = "if ?b then ?pref else provider m"
  from eq v have "\<exists>x. verifyEditStream env s ?v = Inr x \<and> e = ProcessEditStream x \<and>
      pre = [NewEditProcessor, CheckAPIKey ?pref ?b, VerifyEditStream s ?v]"
    by (auto simp: editPipeline_trace Let_def Cons_eq_append_conv split: sum.splits)
  then show "applyGuard env pre e"
    unfolding applyGuard_def by auto
qed

subsection \<open>Runs that reach the task prompt\<close>

lemma askBranch_run:
  assumes "askAI env c (trim env (drop 4 task)) (name m) (provider m) = (chunks, thrown)"
  shows "askBranch env m c task
     = (AskAI c (trim env (drop 4 task)) (name m) (provider m) # map StdoutWrite chunks
          @ (case thrown of None \<Rightarrow> [ConsoleLog Newlines] | Some e \<Rightarrow> []),
        case thrown of None \<Rightarrow> Inr () | Some e \<Rightarrow> Inl (Rejected e))"
  using assms by (simp add: askBranch_def Let_def andThen_def emit_def split: option.splits)

lemma session_question:
  assumes inp: "input env = Inr task" and q: "isQuestion env task"
  shows "\<forall>e\<in>set (fst (session env ks sel pf)). \<not> (isPipelineCall e \<or> writesFiles e)"
proof -
  let ?P = "\<lambda>e::'a event. isPipelineCall e \<or> writesFiles e"
  have calm: "(\<forall>e\<in>set t. \<not> isPipelineCall e \<and> \<not> writesFiles e \<and> e \<noteq> Input)
      \<Longrightarrow> \<forall>e\<in>set t. \<not> ?P e" for t :: "'a event list"
    by blast
  show ?thesis
    unfolding session_def Let_def
    apply (rule quiet_andThen [where P = ?P])
    subgoal by (simp add: emit_trace)
    apply (rule quiet_andThen [where P = ?P])
    subgoal by (rule calm) (rule listAvailableModels_calm)
    apply (rule quiet_andThen [where P = ?P])
    subgoal by (simp split: option.splits)
    apply (rule quiet_andThen [where P = ?P])
    subgoal by (rule calm) (rule checkAndSetAPIKey_calm)
    apply (rule quiet_andThen [where P = ?P])
    subgoal by (rule calm) (rule overflowGate_calm)
    apply (rule quiet_andThen [where P = ?P])
    subgoal by (simp add: emit_trace)
    apply (rule quiet_andThen [where P = ?P])
    subgoal by (simp add: await_trace)
    apply (rule quiet_andThen [where P = ?P])
    subgoal for a aa ab ac ad ae af
      using askBranch_calm [of env ab "code pf" af] await_value [of Input "input env" af] inp q
      by auto
    subgoal by (simp add: emit_trace)
    done
qed


lemma andThen_later:
  assumes "e \<in> set (fst (andThen m f))" and "e \<notin> set (fst m)"
  shows "\<exists>a. snd m = Inr a \<and> e \<in> set (fst (f a))"
  using assms by (cases "snd m") (auto simp: fst_andThen)

lemma andThen_from:
  assumes "e \<in> set (fst (andThen m f))" and "e \<notin> set (fst m)"
    and "\<And>a. snd m = Inr a \<Longrightarrow> e \<in> set (fst (f a))
           \<Longrightarrow> \<exists>pre. e \<notin> set pre \<and> f a = (pre @ e # suf, r)"
  shows "\<exists>pre. e \<notin> set pre \<and> andThen m f = (pre @ e # suf, r)"
proof -
  from andThen_later [OF assms(1,2)] obtain a where a: "snd m = Inr a" "e \<in> set (fst (f a))"
    by blast
  from assms(3) [OF a] obtain pre where pre: "e \<notin> set pre" "f a = (pre @ e # suf, r)"
    by blast
  from a(1) pre(2) have "andThen m f = ((fst m @ pre) @ e # suf, r)"
    by (cases m) (simp add: andThen_def)
  moreover from assms(2) pre(1) have "e \<notin> set (fst m @ pre)" by simp
  ultimately show ?thesis by blast
qed

lemma session_answer:
  fixes env :: "('s, 'k) env"
  assumes inp: "input env = Inr task" and q: "isQuestion env task"
    and ask: "askAI env (code pf) (trim env (drop 4 task)) (name m) (provider m)
                = (chunks, thrown)"
    and i: "Input \<in> set (fst (session env ks (Some m) pf))"
  shows "\<exists>pre. Input \<notin> set pre \<and>
           session env ks (Some m) pf
             = (pre @ Input
                  # (AskAI (code pf) (trim env (drop 4 task)) (name m) (provider m)
                       # map StdoutWrite chunks
                       @ (case thrown of
                            None \<Rightarrow> [ConsoleLog Newlines, ConsoleLog LeaveAStar]
                          | Some e \<Rightarrow> [])),
                case thrown of None \<Rightarrow> Inr () | Some e \<Rightarrow> Inl (Rejected e))"
  using i unfolding session_def Let_def
  apply -
  apply (erule andThen_from)
  subgoal by (simp add: emit_trace)
  apply (erule andThen_from)
  subgoal using listAvailableModels_calm [of env] by blast
  apply (erule andThen_from)
  subgoal by simp
  apply (erule andThen_from)
  subgoal for a aa ab using checkAndSetAPIKey_calm [of env ks ab] by blast
  apply (erule andThen_from)
  subgoal for a aa ab ac
    using overflowGate_calm [of env _ ab] by blast
  apply (erule andThen_from)
  subgoal by (simp add: emit_trace)
  subgoal for a aa ab ac ad ae
    using inp q ask askBranch_run [of env "code pf" task ab chunks thrown]
    by (rule_tac x = "[]" in exI)
       (auto simp add: await_def andThen_def emit_def split: option.splits)
  done

lemma main_session:
  assumes "\<not> isRevert args" and "selectModel (models env) args = (sel, inputs)"
    and "inputs \<noteq> []" and "''-p'' \<notin> set args"
    and "processFiles env inputs (''-a'' \<in> set args) = Inr pf"
    and "session env ks sel pf = (t, r)"
  shows "main env ks args
           = (ProcessFiles inputs (''-a'' \<in> set args) # t,
              case r of Inl out \<Rightarrow> out | Inr u \<Rightarrow> Returned)"
  using assms by (simp add: main_def Let_def step_defs split: sum.splits)

lemma main_reaches_session:
  fixes env :: "('s, 'k) env"
  assumes i: "Input \<in> set (fst (main env ks args))"
  shows "\<exists>sel inputs pf. \<not> isRevert args \<and> selectModel (models env) args = (sel, inputs) \<and>
           inputs \<noteq> [] \<and> ''-p'' \<notin> set args \<and>
           processFiles env inputs (''-a'' \<in> set args) = Inr pf \<and>
           fst (main env ks args)
             = ProcessFiles inputs (''-a'' \<in> set args) # fst (session env ks sel pf) \<and>
           Input \<in> set (fst (session env ks sel pf))"
proof -
  have nr: "\<not> isRevert args"
    using i main_revert [of args env ks] by auto
  obtain sel inputs where sm: "selectModel (models env) args = (sel, inputs)"
    by (cases "selectModel (models env) args")
  have ne: "inputs \<noteq> []"
    using i main_empty [OF nr, of env sel ks] sm by auto
  let ?pfc = "ProcessFiles inputs (''-a'' \<in> set args) :: 's event"
  let ?K = "\<lambda>pf. if ''-p'' \<in> set args then
                 andThen (perform (WriteFileSync ''compiled-code.txt'' (code pf))
                           (writeFileSync env ''compiled-code.txt'' (code pf)))
                   (\<lambda>_. andThen (emit [ConsoleLog SavedCompiledCode]) (\<lambda>_. exit 0))
               else session env ks sel pf"
  let ?m = "await ?pfc (processFiles env inputs (''-a'' \<in> set args))"
  have eq: "fst (main env ks args) = fst (andThen ?m ?K)"
    by (rule main_files [OF nr sm ne])
  with i have im: "Input \<in> set (fst (andThen ?m ?K))" by simp
  have "Input \<notin> set (fst ?m)" by (simp add: await_trace)
  from andThen_later [OF im this]
  obtain pf where pf: "snd ?m = Inr pf" "Input \<in> set (fst (?K pf))"
    by blast
  have np: "''-p'' \<notin> set args"
  proof
    assume p: "''-p'' \<in> set args"
    with pf(2) printCode_trace [of "''compiled-code.txt''" "code pf"
        "writeFileSync env ''compiled-code.txt'' (code pf)"]
    show False by auto
  qed
  from pf(1) have res: "processFiles env inputs (''-a'' \<in> set args) = Inr pf"
    by (rule await_value)
  from eq pf(1) np have "fst (main env ks args) = ?pfc # fst (session env ks sel pf)"
    by (simp add: fst_andThen await_trace)
  with nr sm ne np res pf(2) show ?thesis by auto
qed

subsection \<open>The context-window check\<close>

text \<open>
  Claim C8. For every token count and model, \<^verbatim>\<open>checkContextWindowOverflow\<close> reports an
  overflow exactly when the token count exceeds the context window minus the output
  length; then \<^verbatim>\<open>overflowTokens\<close> is the token count minus that difference; otherwise the
  result is \<^verbatim>\<open>{ overflow: false }\<close> with neither overflow field.
\<close>

theorem checkContextWindowOverflow_exact:
  "overflow (checkContextWindowOverflow t m) = (t > contextWindow m - outputLength m) \<and>
   (t > contextWindow m - outputLength m \<longrightarrow>
      overflowTokens (checkContextWindowOverflow t m)
        = Some (t - (contextWindow m - outputLength m))) \<and>
   (\<not> t > contextWindow m - outputLength m \<longrightarrow>
      checkContextWindowOverflow t m
        = \<lparr>overflow = False, overflowTokens = None, overflowPercentage = None\<rparr>)"
  by (simp add: checkContextWindowOverflow_def Let_def)

theorem checkContextWindowOverflow_exact_witness:
  "overflow (checkContextWindowOverflow 200000 sonnet) \<and>
   overflowTokens (checkContextWindowOverflow 200000 sonnet) = Some 8192 \<and>
   checkContextWindowOverflow 100 sonnet
     = \<lparr>overflow = False, overflowTokens = None, overflowPercentage = None\<rparr>"
  using checkContextWindowOverflow_exact [of 200000 sonnet]
        checkContextWindowOverflow_exact [of 100 sonnet]
  by (simp add: sonnet_def)

subsection \<open>Model selection\<close>

text \<open>
  Claim C9. Let the non-flag arguments be those that line 63 keeps. If there is a last
  one and it is the nickname of an entry of the models table, the first such entry is
  selected and the argument is removed from the file list; otherwise the first entry of
  the table is selected (\<^verbatim>\<open>undefined\<close> when the table is empty) and every non-flag
  argument stays in the file list.
\<close>

theorem selectModel_nickname:
  "(filter nonFlag args \<noteq> [] \<and> last (filter nonFlag args) \<in> nickName ` set ms \<longrightarrow>
      (\<exists>m. selectModel ms args = (Some m, butlast (filter nonFlag args)) \<and>
           findModel ms (last (filter nonFlag args)) = Some m \<and>
           m \<in> set ms \<and> nickName m = last (filter nonFlag args))) \<and>
   (\<not> (filter nonFlag args \<noteq> [] \<and> last (filter nonFlag args) \<in> nickName ` set ms) \<longrightarrow>
      selectModel ms args = (firstModel ms, filter nonFlag args))"
proof (cases "filter nonFlag args = []")
  case True
  then show ?thesis by (simp add: selectModel_def pop_def)
next
  case False
  let ?nf = "filter nonFlag args"
  have ne: "last ?nf \<noteq> []"
    using False last_in_set [of ?nf] by (auto simp: nonFlag_def)
  show ?thesis
  proof (cases "findModel ms (last ?nf)")
    case None
    then have "last ?nf \<notin> nickName ` set ms" by (simp add: findModel_None)
    with None False ne show ?thesis by (simp add: selectModel_def pop_def)
  next
    case (Some m)
    then have m: "m \<in> set ms \<and> nickName m = last ?nf" by (rule findModel_Some)
    then have "last ?nf \<in> nickName ` set ms" by (metis imageI)
    with m Some False show ?thesis by (simp add: selectModel_def pop_def)
  qed
qed

theorem selectModel_nickname_witness:
  "selectModel [sonnet, gpt4omini] [''src'', ''-a'', ''4omini''] = (Some gpt4omini, [''src'']) \<and>
   selectModel [sonnet, gpt4omini] [''src'', ''lib''] = (Some sonnet, [''src'', ''lib''])"
  using selectModel_nickname [of "[''src'', ''-a'', ''4omini'']" "[sonnet, gpt4omini]"]
        selectModel_nickname [of "[''src'', ''lib'']" "[sonnet, gpt4omini]"]
  by (simp add: nonFlag_def startsWith_def sonnet_def gpt4omini_def firstModel_def)

subsection \<open>No files to process\<close>

lemma selectModel_files:
  "snd (selectModel ms args)
     = (if filter nonFlag args \<noteq> [] \<and> last (filter nonFlag args) \<in> nickName ` set ms
        then butlast (filter nonFlag args) else filter nonFlag args)"
proof (cases "filter nonFlag args = []")
  case True
  then show ?thesis by (simp add: selectModel_def pop_def)
next
  case False
  let ?nf = "filter nonFlag args"
  have ne: "last ?nf \<noteq> []"
    using False last_in_set [of ?nf] by (auto simp: nonFlag_def)
  show ?thesis
  proof (cases "findModel ms (last ?nf)")
    case None
    then have "last ?nf \<notin> nickName ` set ms" by (simp add: findModel_None)
    with None False ne show ?thesis by (simp add: selectModel_def pop_def)
  next
    case (Some m)
    then have "nickName m = last ?nf \<and> m \<in> set ms" using findModel_Some by blast
    then have "last ?nf \<in> nickName ` set ms" by (metis imageI)
    with Some False show ?thesis by (simp add: selectModel_def pop_def)
  qed
qed

lemma no_files_not_revert:
  assumes nick: "''revert'' \<notin> nickName ` set ms"
    and empty: "snd (selectModel ms args) = []"
  shows "\<not> isRevert args"
proof
  assume "isRevert args"
  then obtain rest where args: "args = ''revert'' # rest"
    by (cases args) (simp_all add: isRevert_def)
  let ?nf = "filter nonFlag args"
  have nf: "?nf = ''revert'' # filter nonFlag rest"
    by (simp add: args nonFlag_def startsWith_def)
  show False
  proof (cases "last ?nf \<in> nickName ` set ms")
    case True
    with empty nf have "butlast ?nf = []" by (simp add: selectModel_files)
    with nf have "?nf = [''revert'']" by (simp split: if_splits)
    with True nick show False by simp
  next
    case False
    with empty nf show False by (simp add: selectModel_files)
  qed
qed

text \<open>
  Claim C5. When no file or folder argument is left after the flags and the model
  nickname are removed, the driver prints the error and exits with code 1; the error
  message is the only call it makes, so no file is read and no model is called. This
  holds for every command line when no model is nicknamed \<^verbatim>\<open>revert\<close>, and, whatever the
  models table, for every command line that does not start with \<^verbatim>\<open>revert\<close>.
\<close>

theorem main_no_files:
  assumes "''revert'' \<notin> nickName ` set (models env) \<or> \<not> isRevert args"
    and "snd (selectModel (models env) args) = []"
  shows "main env ks args = ([ConsoleError NoFilesOrFolders], Exited 1)"
proof -
  from assms have "\<not> isRevert args" using no_files_not_revert by blast
  with assms(2) show ?thesis
    by (cases "selectModel (models env) args") (simp add: main_def step_defs Let_def)
qed

theorem main_no_files_witness:
  "''revert'' \<notin> nickName ` set (models (sampleEnv ''fix'')) \<and>
   snd (selectModel (models (sampleEnv ''fix'')) [''-a'', ''4omini'']) = [] \<and>
   main (sampleEnv ''fix'') [] [''-a'', ''4omini''] = ([ConsoleError NoFilesOrFolders], Exited 1)"
proof -
  have n: "''revert'' \<notin> nickName ` set (models (sampleEnv ''fix''))"
    by (simp add: sampleEnv_def sonnet_def gpt4omini_def)
  then have a: "''revert'' \<notin> nickName ` set (models (sampleEnv ''fix''))
                 \<or> \<not> isRevert [''-a'', ''4omini'']"
    by (rule disjI1)
  have b: "snd (selectModel (models (sampleEnv ''fix'')) [''-a'', ''4omini'']) = []"
    by (simp add: sampleEnv_def selectModel_def pop_def nonFlag_def startsWith_def
        sonnet_def gpt4omini_def)
  from n b main_no_files [OF a b, of "[]"] show ?thesis by (intro conjI)
qed

subsection \<open>Verification before application\<close>

text \<open>
  Claim C2. In every run, a stream is handed to the applier
  (\<^verbatim>\<open>EditProcessor.processEditStream\<close>) only after a call of \<^verbatim>\<open>verifyEditStream\<close> in the
  same run, and the stream handed over is the result of that call: nothing is applied
  that has not passed through the verifier.
\<close>

theorem applied_stream_verified:
  assumes "fst (main env ks args) = pre @ ProcessEditStream x # post"
  shows "\<exists>s p. VerifyEditStream s p \<in> set pre \<and> verifyEditStream env s p = Inr x"
proof -
  have "guarded isApply (applyGuard env) (fst (main env ks args))"
    by (rule main_guarded [OF _ applyGuard_closed editPipeline_apply]) simp
  with assms have "applyGuard env pre (ProcessEditStream x)"
    unfolding guarded_def by simp
  then show ?thesis unfolding applyGuard_def by auto
qed

theorem applied_stream_verified_witness:
  "fst (main (sampleEnv ''fix the bug'') [] [''src'', ''4omini''])
     = [ProcessFiles [''src''] False, ConsoleLog Welcome,
        ConsoleLog (AvailableModels [''sonnet35'', ''4omini'']),
        ConsoleLog AppendNicknameHint,
        ConsoleLog (SelectedModel ''4omini'' ''gpt-4o-mini'' ''openai''),
        CheckAPIKey ''openai'' False, GetAndSetAPIKey ''openai'',
        ConsoleLog (ApiKeySet ''openai''), ConsoleLog (Loaded 1 104), Input,
        GetAIEditsFromGPT ''<1>x'' (units ''fix the bug'') ''gpt-4o-mini'',
        NewEditProcessor, CheckAPIKey ''anthropic'' False,
        VerifyEditStream ''gpt-stream'' ''openai'']
       @ ProcessEditStream ''gpt-stream/verified-by-openai'' # [ConsoleLog LeaveAStar] \<and>
   (\<exists>s p. VerifyEditStream s p
             \<in> set [ProcessFiles [''src''] False, ConsoleLog Welcome,
                    ConsoleLog (AvailableModels [''sonnet35'', ''4omini'']),
                    ConsoleLog AppendNicknameHint,
                    ConsoleLog (SelectedModel ''4omini'' ''gpt-4o-mini'' ''openai''),
                    CheckAPIKey ''openai'' False, GetAndSetAPIKey ''openai'',
                    ConsoleLog (ApiKeySet ''openai''), ConsoleLog (Loaded 1 104), Input,
                    GetAIEditsFromGPT ''<1>x'' (units ''fix the bug'') ''gpt-4o-mini'',
                    NewEditProcessor, CheckAPIKey ''anthropic'' False,
                    VerifyEditStream ''gpt-stream'' ''openai''] \<and>
          verifyEditStream (sampleEnv ''fix the bug'') s p = Inr ''gpt-stream/verified-by-openai'')"
proof -
  have h: "fst (main (sampleEnv ''fix the bug'') [] [''src'', ''4omini''])
     = [ProcessFiles [''src''] False, ConsoleLog Welcome,
        ConsoleLog (AvailableModels [''sonnet35'', ''4omini'']),
        ConsoleLog AppendNicknameHint,
        ConsoleLog (SelectedModel ''4omini'' ''gpt-4o-mini'' ''openai''),
        CheckAPIKey ''openai'' False, GetAndSetAPIKey ''openai'',
        ConsoleLog (ApiKeySet ''openai''), ConsoleLog (Loaded 1 104), Input,
        GetAIEditsFromGPT ''<1>x'' (units ''fix the bug'') ''gpt-4o-mini'',
        NewEditProcessor, CheckAPIKey ''anthropic'' False,
        VerifyEditStream ''gpt-stream'' ''openai'']
       @ ProcessEditStream ''gpt-stream/verified-by-openai'' # [ConsoleLog LeaveAStar]"
    by code_simp
  from h applied_stream_verified [OF h] show ?thesis by (rule conjI)
qed

subsection \<open>The provider of the verification pass\<close>

text \<open>
  Claim C3. Whenever \<^verbatim>\<open>verifyEditStream\<close> is called, the call before it is the key
  check for the preferred verifier model's provider; the provider passed is the
  preferred verifier's when the check found a key, and the selected model's provider
  when it did not.
\<close>

theorem verifier_provider:
  assumes "fst (main env ks args) = pre @ VerifyEditStream s p # post"
  shows "\<exists>b pre' m. fst (selectModel (models env) args) = Some m \<and>
           pre = pre' @ [CheckAPIKey (provider (preferredVerifierModel env)) b] \<and>
           p = (if b then provider (preferredVerifierModel env) else provider m)"
proof -
  have "guarded isVerify (verifierGuard env args) (fst (main env ks args))"
    by (rule main_guarded [OF _ verifierGuard_closed editPipeline_verifier]) simp_all
  with assms have "verifierGuard env args pre (VerifyEditStream s p)"
    unfolding guarded_def by simp
  then show ?thesis unfolding verifierGuard_def by auto
qed

theorem verifier_provider_witness:
  "fst (main (sampleEnv ''fix the bug'') [''anthropic''] [''src'', ''4omini''])
     = [ProcessFiles [''src''] False, ConsoleLog Welcome,
        ConsoleLog (AvailableModels [''sonnet35'', ''4omini'']),
        ConsoleLog AppendNicknameHint,
        ConsoleLog (SelectedModel ''4omini'' ''gpt-4o-mini'' ''openai''),
        CheckAPIKey ''openai'' False, GetAndSetAPIKey ''openai'',
        ConsoleLog (ApiKeySet ''openai''), ConsoleLog (Loaded 1 104), Input,
        GetAIEditsFromGPT ''<1>x'' (units ''fix the bug'') ''gpt-4o-mini'',
        NewEditProcessor, CheckAPIKey ''anthropic'' True]
       @ VerifyEditStream ''gpt-stream'' ''anthropic''
       # [ProcessEditStream ''gpt-stream/verified-by-anthropic'', ConsoleLog LeaveAStar] \<and>
   (\<exists>b pre' m.
      fst (selectModel (models (sampleEnv ''fix the bug'')) [''src'', ''4omini'']) = Some m \<and>
      [ProcessFiles [''src''] False, ConsoleLog Welcome,
       ConsoleLog (AvailableModels [''sonnet35'', ''4omini'']),
       ConsoleLog AppendNicknameHint,
       ConsoleLog (SelectedModel ''4omini'' ''gpt-4o-mini'' ''openai''),
       CheckAPIKey ''openai'' False, GetAndSetAPIKey ''openai'',
       ConsoleLog (ApiKeySet ''openai''), ConsoleLog (Loaded 1 104), Input,
       GetAIEditsFromGPT ''<1>x'' (units ''fix the bug'') ''gpt-4o-mini'',
       NewEditProcessor, CheckAPIKey ''anthropic'' True :: string event]
        = pre' @ [CheckAPIKey (provider (preferredVerifierModel (sampleEnv ''fix the bug''))) b] \<and>
      ''anthropic'' = (if b then provider (preferredVerifierModel (sampleEnv ''fix the bug''))
                       else provider m))"
proof -
  have h: "fst (main (sampleEnv ''fix the bug'') [''anthropic''] [''src'', ''4omini''])
     = [ProcessFiles [''src''] False, ConsoleLog Welcome,
        ConsoleLog (AvailableModels [''sonnet35'', ''4omini'']),
        ConsoleLog AppendNicknameHint,
        ConsoleLog (SelectedModel ''4omini'' ''gpt-4o-mini'' ''openai''),
        CheckAPIKey ''openai'' False, GetAndSetAPIKey ''openai'',
        ConsoleLog (ApiKeySet ''openai''), ConsoleLog (Loaded 1 104), Input,
        GetAIEditsFromGPT ''<1>x'' (units ''fix the bug'') ''gpt-4o-mini'',
        NewEditProcessor, CheckAPIKey ''anthropic'' True]
       @ VerifyEditStream ''gpt-stream'' ''anthropic''
       # [ProcessEditStream ''gpt-stream/verified-by-anthropic'', ConsoleLog LeaveAStar]"
    by code_simp
  from h verifier_provider [OF h] show ?thesis by (rule conjI)
qed

subsection \<open>Questions\<close>

text \<open>
  Claim C10. The task is a JavaScript string, \<^verbatim>\<open>toLowerCase\<close> and \<^verbatim>\<open>trim\<close> are the runtime's.
  When the task prompt is reached and the task entered, lower-cased, starts with
  \<^verbatim>\<open>ask\<close> and a blank, the run makes no call of the edit pipeline (no request for edits,
  no \<^verbatim>\<open>EditProcessor\<close>, no verification, no application) and no call that writes files
  (no revert, no \<^verbatim>\<open>writeFileSync\<close>, no application). The task is asked for once, and
  what the run does after that is exactly this: it calls \<^verbatim>\<open>askAI\<close> with the compiled text,
  the task after its first four code units, trimmed, and the name and provider of the
  selected model; it writes every chunk of the answer to standard output, in order;
  then it logs the closing blank lines and the closing message and returns. When the
  answer stream throws, the chunks it gave before are written and \<^verbatim>\<open>main\<close> rejects with
  the value thrown.
\<close>

theorem question_only_answered:
  assumes "input env = Inr task" and "isQuestion env task"
    and "Input \<in> set (fst (main env ks args))"
  shows "(\<forall>e\<in>set (fst (main env ks args)). \<not> isPipelineCall e \<and> \<not> writesFiles e) \<and>
         (\<exists>pre m inputs pf chunks thrown.
            selectModel (models env) args = (Some m, inputs) \<and>
            processFiles env inputs (''-a'' \<in> set args) = Inr pf \<and>
            askAI env (code pf) (trim env (drop 4 task)) (name m) (provider m)
              = (chunks, thrown) \<and>
            Input \<notin> set pre \<and>
            main env ks args
              = (pre @ Input
                   # (AskAI (code pf) (trim env (drop 4 task)) (name m) (provider m)
                        # map StdoutWrite chunks
                        @ (case thrown of
                             None \<Rightarrow> [ConsoleLog Newlines, ConsoleLog LeaveAStar]
                           | Some e \<Rightarrow> [])),
                 case thrown of None \<Rightarrow> Returned | Some e \<Rightarrow> Rejected e))"
proof -
  from main_reaches_session [OF assms(3)] obtain sel inputs pf where
    nr: "\<not> isRevert args" and sm: "selectModel (models env) args = (sel, inputs)"
    and ne: "inputs \<noteq> []" and np: "''-p'' \<notin> set args"
    and res: "processFiles env inputs (''-a'' \<in> set args) = Inr pf"
    and eq: "fst (main env ks args)
           = ProcessFiles inputs (''-a'' \<in> set args) # fst (session env ks sel pf)"
    and i: "Input \<in> set (fst (session env ks sel pf))"
    by blast
  from session_question [OF assms(1,2), of ks sel pf]
  have a: "\<forall>e\<in>set (fst (main env ks args)). \<not> isPipelineCall e \<and> \<not> writesFiles e"
    by (simp add: eq)
  from i obtain m where m: "sel = Some m"
    by (cases sel) (simp_all add: session_none)
  obtain chunks thrown where
    ask: "askAI env (code pf) (trim env (drop 4 task)) (name m) (provider m) = (chunks, thrown)"
    by (cases "askAI env (code pf) (trim env (drop 4 task)) (name m) (provider m)")
  let ?suf = "AskAI (code pf) (trim env (drop 4 task)) (name m) (provider m)
                # map StdoutWrite chunks
                @ (case thrown of
                     None \<Rightarrow> [ConsoleLog Newlines, ConsoleLog LeaveAStar]
                   | Some e \<Rightarrow> []) :: 's event list"
  from session_answer [OF assms(1,2) ask i [unfolded m]] obtain pre where
    pre: "Input \<notin> set pre"
    and run: "session env ks (Some m) pf
                = (pre @ Input # ?suf,
                   case thrown of None \<Rightarrow> Inr () | Some e \<Rightarrow> Inl (Rejected e))"
    by blast
  from main_session [OF nr sm [unfolded m] ne np res run]
  have "main env ks args
          = ((ProcessFiles inputs (''-a'' \<in> set args) # pre) @ Input # ?suf,
             case thrown of None \<Rightarrow> Returned | Some e \<Rightarrow> Rejected e)"
    by (simp split: option.splits)
  moreover from pre have "Input \<notin> set (ProcessFiles inputs (''-a'' \<in> set args) # pre)"
    by simp
  ultimately have b: "\<exists>pre m inputs pf chunks thrown.
            selectModel (models env) args = (Some m, inputs) \<and>
            processFiles env inputs (''-a'' \<in> set args) = Inr pf \<and>
            askAI env (code pf) (trim env (drop 4 task)) (name m) (provider m)
              = (chunks, thrown) \<and>
            Input \<notin> set pre \<and>
            main env ks args
              = (pre @ Input
                   # (AskAI (code pf) (trim env (drop 4 task)) (name m) (provider m)
                        # map StdoutWrite chunks
                        @ (case thrown of
                             None \<Rightarrow> [ConsoleLog Newlines, ConsoleLog LeaveAStar]
                           | Some e \<Rightarrow> [])),
                 case thrown of None \<Rightarrow> Returned | Some e \<Rightarrow> Rejected e)"
    using sm [unfolded m] res ask by blast
  from a b show ?thesis by (rule conjI)
qed

theorem question_only_answered_witness:
  "input (sampleEnvEntering kelvinTask) = Inr kelvinTask \<and>
   isQuestion (sampleEnvEntering kelvinTask) kelvinTask \<and>
   Input \<in> set (fst (main (sampleEnvEntering kelvinTask) [''openai''] [''src'', ''-a''])) \<and>
   list_all (\<lambda>e. \<not> isPipelineCall e \<and> \<not> writesFiles e)
     (fst (main (sampleEnvEntering kelvinTask) [''openai''] [''src'', ''-a''])) \<and>
   main (sampleEnvEntering kelvinTask) [''openai''] [''src'', ''-a'']
     = ([ProcessFiles [''src''] True, ConsoleLog Welcome,
         ConsoleLog (AvailableModels [''sonnet35'', ''4omini'']),
         ConsoleLog AppendNicknameHint,
         ConsoleLog (SelectedModel ''sonnet35'' ''claude-3-5-sonnet-20240620'' ''anthropic''),
         CheckAPIKey ''anthropic'' False, GetAndSetAPIKey ''anthropic'',
         ConsoleLog (ApiKeySet ''anthropic''), ConsoleLog (Loaded 1 104), Input,
         AskAI ''<1>x'' (units ''what'') ''claude-3-5-sonnet-20240620'' ''anthropic'',
         StdoutWrite ''yes'', ConsoleLog Newlines, ConsoleLog LeaveAStar],
        Returned)"
proof -
  let ?env = "sampleEnvEntering kelvinTask"
  have h1: "input ?env = Inr kelvinTask"
    by (simp add: sampleEnvEntering_def)
  have h2: "isQuestion ?env kelvinTask"
    by code_simp
  have h3: "Input \<in> set (fst (main ?env [''openai''] [''src'', ''-a'']))"
    by code_simp
  have run: "main ?env [''openai''] [''src'', ''-a'']
     = ([ProcessFiles [''src''] True, ConsoleLog Welcome,
         ConsoleLog (AvailableModels [''sonnet35'', ''4omini'']),
         ConsoleLog AppendNicknameHint,
         ConsoleLog (SelectedModel ''sonnet35'' ''claude-3-5-sonnet-20240620'' ''anthropic''),
         CheckAPIKey ''anthropic'' False, GetAndSetAPIKey ''anthropic'',
         ConsoleLog (ApiKeySet ''anthropic''), ConsoleLog (Loaded 1 104), Input,
         AskAI ''<1>x'' (units ''what'') ''claude-3-5-sonnet-20240620'' ''anthropic'',
         StdoutWrite ''yes'', ConsoleLog Newlines, ConsoleLog LeaveAStar],
        Returned)"
    by code_simp
  from question_only_answered [OF h1 h2 h3]
  have quiet: "list_all (\<lambda>e. \<not> isPipelineCall e \<and> \<not> writesFiles e)
                 (fst (main ?env [''openai''] [''src'', ''-a'']))"
    unfolding list_all_iff by (rule conjunct1)
  from h1 h2 h3 quiet run show ?thesis by (intro conjI)
qed

subsection \<open>Printing the compiled text\<close>

text \<open>
  Claim C6, as amended. When \<^verbatim>\<open>-p\<close> is among the arguments, the first argument is not
  \<^verbatim>\<open>revert\<close>, at least one file or folder argument is left after the flags and the
  model nickname are removed, and neither \<^verbatim>\<open>processFiles\<close> nor the write throws, the run
  consists of the call of \<^verbatim>\<open>processFiles\<close>, the write of the compiled text, verbatim, to
  \<^verbatim>\<open>compiled-code.txt\<close> and the closing message, and it exits with status 0: there is no
  task prompt, no model call and no other write.
\<close>

theorem print_code_and_exit:
  assumes "''-p'' \<in> set args" and "\<not> isRevert args"
    and "selectModel (models env) args = (sel, inputs)" and "inputs \<noteq> []"
    and "processFiles env inputs (''-a'' \<in> set args) = Inr pf"
    and "writeFileSync env ''compiled-code.txt'' (code pf) = None"
  shows "main env ks args
           = ([ProcessFiles inputs (''-a'' \<in> set args),
               WriteFileSync ''compiled-code.txt'' (code pf),
               ConsoleLog SavedCompiledCode], Exited 0)"
  using assms by (simp add: main_def step_defs Let_def)

theorem print_code_and_exit_witness:
  "''-p'' \<in> set [''src'', ''-p''] \<and> \<not> isRevert [''src'', ''-p''] \<and>
   selectModel (models (sampleEnv ''fix'')) [''src'', ''-p''] = (Some sonnet, [''src'']) \<and>
   [''src''] \<noteq> ([] :: string list) \<and>
   processFiles (sampleEnv ''fix'') [''src''] (''-a'' \<in> set [''src'', ''-p''])
     = Inr \<lparr>code = ''<1>x'', count = 1\<rparr> \<and>
   writeFileSync (sampleEnv ''fix'') ''compiled-code.txt'' (code \<lparr>code = ''<1>x'', count = 1\<rparr>) = None \<and>
   main (sampleEnv ''fix'') [] [''src'', ''-p'']
     = ([ProcessFiles [''src''] (''-a'' \<in> set [''src'', ''-p'']),
         WriteFileSync ''compiled-code.txt'' (code \<lparr>code = ''<1>x'', count = 1\<rparr>),
         ConsoleLog SavedCompiledCode], Exited 0)"
proof -
  have a: "''-p'' \<in> set [''src'', ''-p'']" by simp
  have b: "\<not> isRevert [''src'', ''-p'']" by (simp add: isRevert_def)
  have c: "selectModel (models (sampleEnv ''fix'')) [''src'', ''-p''] = (Some sonnet, [''src''])"
    by (simp add: sampleEnv_def selectModel_def pop_def nonFlag_def startsWith_def
        sonnet_def gpt4omini_def firstModel_def)
  have d: "[''src''] \<noteq> ([] :: string list)" by simp
  have e: "processFiles (sampleEnv ''fix'') [''src''] (''-a'' \<in> set [''src'', ''-p''])
             = Inr \<lparr>code = ''<1>x'', count = 1\<rparr>"
    by (simp add: sampleEnv_def)
  have f: "writeFileSync (sampleEnv ''fix'') ''compiled-code.txt''
             (code \<lparr>code = ''<1>x'', count = 1\<rparr>) = None"
    by (simp add: sampleEnv_def)
  from a b c d e f print_code_and_exit [OF a b c d e f, of "[]"]
  show ?thesis by (intro conjI)
qed

text \<open>
  The claim as first stated fails: with \<^verbatim>\<open>-p\<close> as the only argument the run ends with
  the error message and exit code 1, and with \<^verbatim>\<open>revert\<close> before \<^verbatim>\<open>-p\<close> it reverts the
  last changes and returns; neither writes \<^verbatim>\<open>compiled-code.txt\<close>.
\<close>

theorem print_code_counterexample:
  "''-p'' \<in> set [''-p''] \<and>
   main (sampleEnv ''fix'') [] [''-p''] = ([ConsoleError NoFilesOrFolders], Exited 1) \<and>
   ''-p'' \<in> set [''revert'', ''-p''] \<and>
   main (sampleEnv ''fix'') [] [''revert'', ''-p''] = ([RevertLastChanges], Returned)"
  by code_simp

subsection \<open>The revert subcommand\<close>

text \<open>
  Claim C4. When the first argument is \<^verbatim>\<open>revert\<close>, the only call the driver makes is
  \<^verbatim>\<open>revertLastChanges\<close>: nothing is compiled, no model is called and no edit is applied,
  and \<^verbatim>\<open>main\<close> returns (or is rejected with what that call threw). With nothing
  recorded, the revert of the history store reports that there is nothing to revert
  and leaves the disk and the store as they are.
\<close>

theorem revert_only:
  "(isRevert args \<longrightarrow>
      main env ks args
        = ([RevertLastChanges],
           case revertLastChanges env of None \<Rightarrow> Returned | Some e \<Rightarrow> Rejected e)) \<and>
   (history d = None \<longrightarrow> revert w d = (d, [NothingToRevert]))"
  by (simp add: main_def step_defs revert_def split: option.splits)

theorem revert_only_witness:
  "isRevert [''revert''] \<and> history sampleDisk = None \<and>
   main (sampleEnv ''fix'') [] [''revert''] = ([RevertLastChanges], Returned) \<and>
   revert (\<lambda>path. True) sampleDisk = (sampleDisk, [NothingToRevert])"
  using revert_only [of "[''revert'']" "sampleEnv ''fix''" "[]" sampleDisk "\<lambda>path. True"]
  by (simp add: isRevert_def sampleDisk_def sampleEnv_def)

section \<open>Properties of the history store and the applier\<close>

lemma applyPacket_history: "history (fst (applyPacket w rw st p)) = history (fst st)"
  by (cases st) (simp add: applyPacket_def split: option.splits)

lemma applyPacket_other:
  "filePath p \<noteq> g \<Longrightarrow> files (fst (applyPacket w rw st p)) g = files (fst st) g"
  by (cases st) (auto simp: applyPacket_def split: option.splits)

lemma applyPacket_dom:
  "(files (fst (applyPacket w rw st p)) g = None) = (files (fst st) g = None)"
  by (cases st) (simp add: applyPacket_def split: option.splits)

lemma applyPacket_failed_mono: "failed (snd st) \<le> failed (snd (applyPacket w rw st p))"
  by (cases st) (simp add: applyPacket_def split: option.splits)

lemma applyPacket_no_failure:
  "failed (snd (applyPacket w rw st p)) = failed (snd st) \<Longrightarrow>
   w (filePath p) \<and> files (fst st) (filePath p) \<noteq> None"
  by (cases st) (simp add: applyPacket_def split: option.splits if_splits)

lemma applyPackets_history:
  "history (fst (foldl (applyPacket w rw) st ps)) = history (fst st)"
  by (induction ps arbitrary: st) (simp_all add: applyPacket_history)

lemma applyPackets_other:
  "\<forall>p\<in>set ps. filePath p \<noteq> g \<Longrightarrow>
   files (fst (foldl (applyPacket w rw) st ps)) g = files (fst st) g"
  by (induction ps arbitrary: st) (simp_all add: applyPacket_other)

lemma applyPackets_dom:
  "(files (fst (foldl (applyPacket w rw) st ps)) g = None) = (files (fst st) g = None)"
  by (induction ps arbitrary: st) (simp_all add: applyPacket_dom)

lemma applyPackets_failed_mono:
  "failed (snd st) \<le> failed (snd (foldl (applyPacket w rw) st ps))"
proof (induction ps arbitrary: st)
  case Nil
  show ?case by simp
next
  case (Cons p ps)
  have "failed (snd st) \<le> failed (snd (applyPacket w rw st p))"
    by (rule applyPacket_failed_mono)
  also have "\<dots> \<le> failed (snd (foldl (applyPacket w rw) (applyPacket w rw st p) ps))"
    by (rule Cons.IH)
  finally show ?case by simp
qed

lemma applyPackets_no_failure:
  assumes "failed (snd (foldl (applyPacket w rw) st ps)) = failed (snd st)"
    and "p \<in> set ps"
  shows "w (filePath p) \<and> files (fst st) (filePath p) \<noteq> None"
  using assms
proof (induction ps arbitrary: st)
  case Nil
  then show ?case by simp
next
  case (Cons q qs)
  let ?st = "applyPacket w rw st q"
  have m1: "failed (snd st) \<le> failed (snd ?st)" by (rule applyPacket_failed_mono)
  have m2: "failed (snd ?st) \<le> failed (snd (foldl (applyPacket w rw) ?st qs))"
    by (rule applyPackets_failed_mono)
  from Cons.prems(1) m1 m2 have e1: "failed (snd ?st) = failed (snd st)"
    and e2: "failed (snd (foldl (applyPacket w rw) ?st qs)) = failed (snd ?st)" by simp_all
  show ?case
  proof (cases "p = q")
    case True
    with applyPacket_no_failure [OF e1] show ?thesis by simp
  next
    case False
    with Cons.prems(2) have "p \<in> set qs" by simp
    from Cons.IH [OF e2 this] show ?thesis by (simp add: applyPacket_dom)
  qed
qed

lemma set_insertDescending: "set (insertDescending p qs) = insert p (set qs)"
  by (induction qs) auto

lemma set_descending: "set (descending ps) = set ps"
  unfolding descending_def by (induction ps) (simp_all add: set_insertDescending)

lemma captureFile_files: "files (captureFile f d) = files d"
  by (simp add: captureFile_def split: option.splits)

lemma captureFile_history:
  assumes "history d = Some h" and "f \<notin> fst ` set (affectedFiles h)"
  shows "history (captureFile f d)
           = Some (h\<lparr>affectedFiles := affectedFiles h
                      @ (case files d f of None \<Rightarrow> [] | Some text \<Rightarrow> [(f, text)])\<rparr>)"
  using assms by (simp add: captureFile_def split: option.splits)

lemma applyFile_history:
  assumes "history (fst st) = Some h" and "f \<notin> fst ` set (affectedFiles h)"
  shows "history (fst (applyFile w rw ps st f))
           = Some (h\<lparr>affectedFiles := affectedFiles h
                      @ (case files (fst st) f of None \<Rightarrow> [] | Some text \<Rightarrow> [(f, text)])\<rparr>)"
  using captureFile_history [OF assms]
  by (simp add: applyFile_def applyPackets_history)

lemma applyFile_other:
  "g \<noteq> f \<Longrightarrow> files (fst (applyFile w rw ps st f)) g = files (fst st) g"
  by (simp add: applyFile_def applyPackets_other set_descending captureFile_files)

lemma applyFile_dom:
  "(files (fst (applyFile w rw ps st f)) g = None) = (files (fst st) g = None)"
  by (simp add: applyFile_def applyPackets_dom captureFile_files)

lemma applyFile_failed_mono: "failed (snd st) \<le> failed (snd (applyFile w rw ps st f))"
  using applyPackets_failed_mono [of "(captureFile f (fst st), snd st)" w rw]
  by (simp add: applyFile_def)

lemma applyFile_no_failure:
  assumes "failed (snd (applyFile w rw ps st f)) = failed (snd st)"
    and "p \<in> set ps" and "filePath p = f"
  shows "w f \<and> files (fst st) f \<noteq> None"
proof -
  let ?qs = "descending (filter (\<lambda>p. filePath p = f) ps)"
  let ?st = "(captureFile f (fst st), snd st)"
  have "p \<in> set ?qs" using assms(2,3) by (simp add: set_descending)
  moreover have "failed (snd (foldl (applyPacket w rw) ?st ?qs)) = failed (snd ?st)"
    using assms(1) by (simp add: applyFile_def)
  ultimately have "w (filePath p) \<and> files (fst ?st) (filePath p) \<noteq> None"
    by (rule applyPackets_no_failure [rotated])
  then show ?thesis using assms(3) by (simp add: captureFile_files)
qed

lemma applyFiles_failed_mono:
  "failed (snd st) \<le> failed (snd (foldl (applyFile w rw ps) st fs))"
proof (induction fs arbitrary: st)
  case Nil
  show ?case by simp
next
  case (Cons f fs)
  have "failed (snd st) \<le> failed (snd (applyFile w rw ps st f))"
    by (rule applyFile_failed_mono)
  also have "\<dots> \<le> failed (snd (foldl (applyFile w rw ps) (applyFile w rw ps st f) fs))"
    by (rule Cons.IH)
  finally show ?case by simp
qed


lemma applyFiles_no_failure:
  assumes "failed (snd (foldl (applyFile w rw ps) st fs)) = failed (snd st)"
    and "history (fst st) = Some h"
    and "distinct fs"
    and "set fs \<inter> fst ` set (affectedFiles h) = {}"
    and "\<forall>f\<in>set fs. \<exists>p\<in>set ps. filePath p = f"
  shows "(\<forall>f\<in>set fs. w f \<and> files (fst st) f \<noteq> None) \<and>
         history (fst (foldl (applyFile w rw ps) st fs))
           = Some (h\<lparr>affectedFiles := affectedFiles h
                      @ map (\<lambda>f. (f, the (files (fst st) f))) fs\<rparr>) \<and>
         (\<forall>g. g \<notin> set fs \<longrightarrow> files (fst (foldl (applyFile w rw ps) st fs)) g = files (fst st) g) \<and>
         (\<forall>g. (files (fst (foldl (applyFile w rw ps) st fs)) g = None) = (files (fst st) g = None))"
  using assms
proof (induction fs arbitrary: st h)
  case Nil
  then show ?case by simp
next
  case (Cons f fs)
  let ?st = "applyFile w rw ps st f"
  let ?end = "foldl (applyFile w rw ps) ?st fs"
  have m1: "failed (snd st) \<le> failed (snd ?st)" by (rule applyFile_failed_mono)
  have m2: "failed (snd ?st) \<le> failed (snd ?end)" by (rule applyFiles_failed_mono)
  from Cons.prems(1) m1 m2 have e1: "failed (snd ?st) = failed (snd st)"
    and e2: "failed (snd ?end) = failed (snd ?st)" by simp_all
  from Cons.prems(5) obtain p where p: "p \<in> set ps" "filePath p = f" by auto
  from applyFile_no_failure [OF e1 p] have wf: "w f" and ex: "files (fst st) f \<noteq> None"
    by simp_all
  from Cons.prems(4) have nf: "f \<notin> fst ` set (affectedFiles h)" by auto
  let ?h = "h\<lparr>affectedFiles := affectedFiles h @ [(f, the (files (fst st) f))]\<rparr>"
  have hist: "history (fst ?st) = Some ?h"
    using applyFile_history [OF Cons.prems(2) nf, of w rw ps] ex by auto
  have d: "distinct fs" and fn: "f \<notin> set fs" using Cons.prems(3) by simp_all
  have disj: "set fs \<inter> fst ` set (affectedFiles ?h) = {}"
    using Cons.prems(4) fn by auto
  have cover: "\<forall>f\<in>set fs. \<exists>p\<in>set ps. filePath p = f" using Cons.prems(5) by simp
  note IH = Cons.IH [OF e2 hist d disj cover]
  have same: "files (fst ?st) g = files (fst st) g" if "g \<in> set fs" for g
    using that fn by (intro applyFile_other) auto
  have a: "\<forall>g\<in>set (f # fs). w g \<and> files (fst st) g \<noteq> None"
    using IH wf ex same by auto
  have mapeq: "map (\<lambda>g. (g, the (files (fst ?st) g))) fs
        = map (\<lambda>g. (g, the (files (fst st) g))) fs"
    using same by simp
  have b: "history (fst ?end) = Some (h\<lparr>affectedFiles := affectedFiles h
                      @ map (\<lambda>g. (g, the (files (fst st) g))) (f # fs)\<rparr>)"
    using IH mapeq by simp
  have c: "\<forall>g. g \<notin> set (f # fs) \<longrightarrow> files (fst ?end) g = files (fst st) g"
    using IH by (simp add: applyFile_other)
  have e: "\<forall>g. (files (fst ?end) g = None) = (files (fst st) g = None)"
    using IH by (simp add: applyFile_dom)
  from a b c e show ?case by simp
qed

lemma revertFiles_all:
  assumes "\<forall>(f, t)\<in>set kvs. w f \<and> files d f \<noteq> None"
  shows "foldl (revertFile w) (d, out) kvs
           = (d\<lparr>files := files d ++ map_of (rev kvs)\<rparr>, out @ map (\<lambda>(f, t). Restored f) kvs)"
  using assms
proof (induction kvs arbitrary: d out)
  case Nil
  then show ?case by simp
next
  case (Cons kv kvs)
  obtain f t where kv: "kv = (f, t)" by (cases kv)
  from Cons.prems kv have wf: "w f" and ex: "files d f \<noteq> None" by auto
  let ?d = "d\<lparr>files := (files d)(f \<mapsto> t)\<rparr>"
  have step: "revertFile w (d, out) kv = (?d, out @ [Restored f])"
    using wf ex kv by (auto simp: revertFile_def Let_def)
  have pre: "\<forall>(g, u)\<in>set kvs. w g \<and> files ?d g \<noteq> None"
    using Cons.prems by auto
  have meq: "files ?d ++ map_of (rev kvs) = files d ++ map_of (rev (kv # kvs))"
    by (simp add: kv map_add_def fun_eq_iff split: option.splits)
  have "foldl (revertFile w) (d, out) (kv # kvs)
          = foldl (revertFile w) (?d, out @ [Restored f]) kvs"
    using step by simp
  also have "\<dots> = (?d\<lparr>files := files ?d ++ map_of (rev kvs)\<rparr>,
                    (out @ [Restored f]) @ map (\<lambda>(f, t). Restored f) kvs)"
    by (rule Cons.IH [OF pre])
  also have "\<dots> = (d\<lparr>files := files d ++ map_of (rev (kv # kvs))\<rparr>,
                    out @ map (\<lambda>(f, t). Restored f) (kv # kvs))"
    unfolding meq by (simp add: kv)
  finally show ?case .
qed

lemma applyRun_no_failure:
  assumes run: "applyRun now w rw results d = (d', report)"
    and ok: "failed report = 0"
    and ne: "List.map_filter packetOf results \<noteq> []"
  shows "(\<forall>g\<in>filePath ` set (List.map_filter packetOf results). w g \<and> files d g \<noteq> None) \<and>
         history d' = Some \<lparr>timestamp = now,
            affectedFiles = map (\<lambda>g. (g, the (files d g)))
              (remdups (map filePath (List.map_filter packetOf results)))\<rparr> \<and>
         (\<forall>g. g \<notin> filePath ` set (List.map_filter packetOf results) \<longrightarrow> files d' g = files d g) \<and>
         (\<forall>g. (files d' g = None) = (files d g = None))"
proof -
  let ?ps = "List.map_filter packetOf results"
  let ?fs = "remdups (map filePath ?ps)"
  let ?h = "\<lparr>timestamp = now, affectedFiles = []\<rparr>"
  let ?st = "(d\<lparr>history := Some ?h\<rparr>,
              \<lparr>applied = 0, skipped = length results - length ?ps, failed = 0\<rparr>)"
  from run ne have res: "foldl (applyFile w rw ?ps) ?st ?fs = (d', report)"
    by (simp add: applyRun_def Let_def)
  have e: "failed (snd (foldl (applyFile w rw ?ps) ?st ?fs)) = failed (snd ?st)"
    using res ok by simp
  have h: "history (fst ?st) = Some ?h" by simp
  have d: "distinct ?fs" by simp
  have disj: "set ?fs \<inter> fst ` set (affectedFiles ?h) = {}" by simp
  have cover: "\<forall>f\<in>set ?fs. \<exists>p\<in>set ?ps. filePath p = f" by auto
  from applyFiles_no_failure [OF e h d disj cover] res
  show ?thesis by simp
qed

subsection \<open>Applying, then reverting\<close>

text \<open>
  Claim C1. For every run of the applier that met no \<^verbatim>\<open>ApplyError\<close> and every file
  \<open>f\<close> the run's packets touch: the history entry of the run holds, for \<open>f\<close>, the text
  \<open>f\<close> had before the run; the revert that follows reports \<open>f\<close> restored and leaves
  \<open>f\<close> with exactly that text; every file on disk then has the text it had before
  the run, and the store is empty.
\<close>

theorem apply_then_revert:
  assumes run: "applyRun now w rw results d = (d', report)"
    and ok: "failed report = 0"
    and aff: "f \<in> filePath ` set (List.map_filter packetOf results)"
  shows "files (fst (revert w d')) f = files d f \<and> files d f \<noteq> None \<and>
         (\<exists>h. history d' = Some h \<and> map_of (affectedFiles h) f = files d f) \<and>
         Restored f \<in> set (snd (revert w d')) \<and>
         files (fst (revert w d')) = files d \<and>
         history (fst (revert w d')) = None"
proof -
  let ?ps = "List.map_filter packetOf results"
  let ?fs = "remdups (map filePath ?ps)"
  let ?snap = "\<lambda>g. (g, the (files d g))"
  let ?kvs = "map ?snap ?fs"
  from aff have ne: "?ps \<noteq> []" by auto
  from applyRun_no_failure [OF run ok ne]
  have good: "\<forall>g\<in>set ?fs. w g \<and> files d g \<noteq> None"
    and hist: "history d' = Some \<lparr>timestamp = now, affectedFiles = ?kvs\<rparr>"
    and other: "\<forall>g. g \<notin> set ?fs \<longrightarrow> files d' g = files d g"
    and dom: "\<forall>g. (files d' g = None) = (files d g = None)"
    by simp_all
  have pre: "\<forall>(g, t)\<in>set ?kvs. w g \<and> files d' g \<noteq> None"
    using good dom by auto
  have rv: "revert w d'
               = (d'\<lparr>files := files d' ++ map_of (rev ?kvs), history := None\<rparr>,
                  map (\<lambda>(f, t). Restored f) ?kvs)"
    using revertFiles_all [OF pre, of "[]"] hist by (simp add: revert_def)
  have mo: "map_of (rev ?kvs) = (Some \<circ> (\<lambda>g. the (files d g))) |` set ?fs"
    using map_of_map_restrict [of "\<lambda>g. the (files d g)" "rev ?fs"] by (simp add: rev_map)
  have mo': "map_of ?kvs = (Some \<circ> (\<lambda>g. the (files d g))) |` set ?fs"
    using map_of_map_restrict [of "\<lambda>g. the (files d g)" "?fs"] by simp
  have all: "files d' ++ map_of (rev ?kvs) = files d"
  proof
    fix g
    show "(files d' ++ map_of (rev ?kvs)) g = files d g"
    proof (cases "g \<in> set ?fs")
      case True
      with good have "files d g \<noteq> None" by blast
      with True show ?thesis by (auto simp: mo map_add_def restrict_map_def)
    next
      case False
      with other show ?thesis by (simp add: mo map_add_def restrict_map_def)
    qed
  qed
  have fin: "f \<in> set ?fs" using aff by simp
  have ex: "files d f \<noteq> None" using good fin by blast
  have snap: "map_of ?kvs f = files d f"
    using fin ex by (auto simp: mo' restrict_map_def)
  have rest: "Restored f \<in> set (snd (revert w d'))"
    using fin by (auto simp: rv image_iff)
  from all ex snap rest hist show ?thesis
    by (simp add: rv)
qed

theorem apply_then_revert_witness:
  "applyRun 7 (\<lambda>path. True) (\<lambda>p text. text @ ''!'') sampleResults sampleDisk
     = (fst (applyRun 7 (\<lambda>path. True) (\<lambda>p text. text @ ''!'') sampleResults sampleDisk),
        snd (applyRun 7 (\<lambda>path. True) (\<lambda>p text. text @ ''!'') sampleResults sampleDisk)) \<and>
   failed (snd (applyRun 7 (\<lambda>path. True) (\<lambda>p text. text @ ''!'') sampleResults sampleDisk)) = 0 \<and>
   ''a.txt'' \<in> filePath ` set (List.map_filter packetOf sampleResults) \<and>
   files (fst (applyRun 7 (\<lambda>path. True) (\<lambda>p text. text @ ''!'') sampleResults sampleDisk)) ''a.txt''
     = Some ''one!!'' \<and>
   files (fst (revert (\<lambda>path. True)
            (fst (applyRun 7 (\<lambda>path. True) (\<lambda>p text. text @ ''!'') sampleResults sampleDisk))))
       ''a.txt''
     = Some ''one''"
proof -
  let ?run = "applyRun 7 (\<lambda>path. True) (\<lambda>p text. text @ ''!'') sampleResults sampleDisk"
  have a: "?run = (fst ?run, snd ?run)" by simp
  have b: "failed (snd ?run) = 0" by code_simp
  have c: "''a.txt'' \<in> filePath ` set (List.map_filter packetOf sampleResults)"
    by (simp add: sampleResults_def samplePacket_def List.map_filter_def)
  have d: "files (fst ?run) ''a.txt'' = Some ''one!!''" by code_simp
  have e: "files sampleDisk ''a.txt'' = Some ''one''" by (simp add: sampleDisk_def)
  from apply_then_revert [OF a b c] e
  have "files (fst (revert (\<lambda>path. True) (fst ?run))) ''a.txt'' = Some ''one''" by simp
  with a b c d show ?thesis by (intro conjI)
qed

section \<open>Properties of the normalizer\<close>

lemma take_append_le: "n \<le> length xs \<Longrightarrow> take n (xs @ ys) = take n xs"
  by simp

lemma drop_append_le: "n \<le> length xs \<Longrightarrow> drop n (xs @ ys) = drop n xs @ ys"
  by simp

lemma cutAtMarker_append:
  assumes "cutAtMarker m a = Some (r, rest)"
  shows "cutAtMarker m (a @ b) = Some (r, rest @ b)"
  using assms
proof (induction a arbitrary: r)
  case Nil
  then show ?case by simp
next
  case (Cons c cs)
  show ?case
  proof (cases "startsWith (c # cs) m")
    case True
    then have t: "take (length m) (c # cs) = m" by (simp add: startsWith_def)
    have len: "length m \<le> length (c # cs)"
      using arg_cong [OF t, of length] by simp
    have "take (length m) ((c # cs) @ b) = take (length m) (c # cs)"
      by (rule take_append_le [OF len])
    with t have sw: "startsWith ((c # cs) @ b) m" by (simp only: startsWith_def)
    have dr: "drop (length m) ((c # cs) @ b) = drop (length m) (c # cs) @ b"
      by (rule drop_append_le [OF len])
    from Cons.prems True have "r = []" and "rest = drop (length m) (c # cs)" by simp_all
    moreover have "cutAtMarker m ((c # cs) @ b) = Some ([], drop (length m) ((c # cs) @ b))"
      using sw by (simp only: append_Cons cutAtMarker.simps if_True)
    ultimately show ?thesis by (simp only: dr)
  next
    case False
    with Cons.prems obtain r' where c: "cutAtMarker m cs = Some (r', rest)" and r: "r = c # r'"
      by (auto split: option.splits)
    from cutAtMarker_split [OF c] have "length m \<le> length (c # cs)" by simp
    then have "take (length m) ((c # cs) @ b) = take (length m) (c # cs)"
      by (rule take_append_le)
    with False have ns: "\<not> startsWith ((c # cs) @ b) m" by (simp add: startsWith_def)
    have "cutAtMarker m ((c # cs) @ b)
            = (case cutAtMarker m (cs @ b) of None \<Rightarrow> None
               | Some (r, rest) \<Rightarrow> Some (c # r, rest))"
      using ns by (simp only: append_Cons cutAtMarker.simps if_False)
    with Cons.IH [OF c] r show ?thesis by simp
  qed
qed

lemma scanRecords_no_marker: "scanRecords [] s = ([], s)"
  by (simp add: scanRecords.simps [of "[]" s])

lemma scanRecords_append:
  "scanRecords m (a @ b)
     = (case scanRecords m a of (rs, tail) \<Rightarrow>
          (case scanRecords m (tail @ b) of (rs', tail') \<Rightarrow> (rs @ rs', tail')))"
proof (induction m a rule: scanRecords.induct)
  case (1 m s)
  show ?case
  proof (cases "m = []")
    case True
    then show ?thesis by (simp add: scanRecords_no_marker)
  next
    case ne: False
    show ?thesis
    proof (cases "cutAtMarker m s")
      case None
      with ne have "scanRecords m s = ([], s)" by (simp add: scanRecords.simps [of m s])
      then show ?thesis by (simp split: prod.splits)
    next
      case (Some p)
      obtain r rest where p: "p = (r, rest)" by (cases p)
      with Some have c: "cutAtMarker m s = Some (r, rest)" by simp
      have c': "cutAtMarker m (s @ b) = Some (r, rest @ b)" by (rule cutAtMarker_append [OF c])
      have l: "scanRecords m (s @ b)
                 = (case scanRecords m (rest @ b) of (rs, tail) \<Rightarrow> (r # rs, tail))"
        using ne c' by (simp add: scanRecords.simps [of m "s @ b"])
      have r: "scanRecords m s = (case scanRecords m rest of (rs, tail) \<Rightarrow> (r # rs, tail))"
        using ne c by (simp add: scanRecords.simps [of m s])
      from "1.IH" [OF ne c refl] l r show ?thesis
        by (simp split: prod.splits)
    qed
  qed
qed


lemma scanRecords_tail:
  "scanRecords m s = (rs, t) \<Longrightarrow> scanRecords m t = ([], t)"
proof (induction m s arbitrary: rs rule: scanRecords.induct)
  case (1 m s)
  show ?case
  proof (cases "m = []")
    case True
    then show ?thesis by (simp add: scanRecords_no_marker)
  next
    case ne: False
    show ?thesis
    proof (cases "cutAtMarker m s")
      case None
      with ne "1.prems" have "t = s" by (simp add: scanRecords.simps [of m s])
      with ne None show ?thesis by (simp add: scanRecords.simps [of m s])
    next
      case (Some p)
      obtain r rest where p: "p = (r, rest)" by (cases p)
      with Some have c: "cutAtMarker m s = Some (r, rest)" by simp
      obtain rs' t' where rec: "scanRecords m rest = (rs', t')" by (cases "scanRecords m rest")
      with ne c "1.prems" have "t = t'" by (simp add: scanRecords.simps [of m s])
      with rec have "scanRecords m rest = (rs', t)" by simp
      from "1.IH" [OF ne c refl this] show ?thesis .
    qed
  qed
qed

lemma feedAll_whole:
  assumes "scanRecords m (buffer n) = ([], buffer n)"
  shows "feedAll m parseRecord n fragments
     = (case scanRecords m (buffer n @ concat fragments) of
          (records, rest) \<Rightarrow>
            (List.map_filter parseRecord records,
             \<lparr>buffer = rest,
              malformed = malformed n + length (filter (\<lambda>r. parseRecord r = None) records)\<rparr>))"
  using assms
proof (induction fragments arbitrary: n)
  case Nil
  then show ?case by (simp add: List.map_filter_simps)
next
  case (Cons f fs)
  obtain rs1 t1 where s1: "scanRecords m (buffer n @ f) = (rs1, t1)"
    by (cases "scanRecords m (buffer n @ f)")
  let ?n = "\<lparr>buffer = t1,
             malformed = malformed n + length (filter (\<lambda>r. parseRecord r = None) rs1)\<rparr>"
  have fd: "feed m parseRecord n f = (List.map_filter parseRecord rs1, ?n)"
    by (simp add: feed_def s1)
  have tl: "scanRecords m (buffer ?n) = ([], buffer ?n)"
    using scanRecords_tail [OF s1] by simp
  obtain rs2 t2 where s2: "scanRecords m (t1 @ concat fs) = (rs2, t2)"
    by (cases "scanRecords m (t1 @ concat fs)")
  have whole: "scanRecords m (buffer n @ concat (f # fs)) = (rs1 @ rs2, t2)"
    using scanRecords_append [of m "buffer n @ f" "concat fs"] s1 s2 by simp
  have "feedAll m parseRecord ?n fs
          = (List.map_filter parseRecord rs2,
             \<lparr>buffer = t2,
              malformed = malformed ?n + length (filter (\<lambda>r. parseRecord r = None) rs2)\<rparr>)"
    using Cons.IH [OF tl] s2 by simp
  with fd whole show ?case
    by (simp add: List.map_filter_def)
qed

lemma normalize_whole:
  "normalize m parseRecord fragments
     = (List.map_filter parseRecord (completeRecords m (concat fragments)),
        \<lparr>buffer = snd (scanRecords m (concat fragments)),
         malformed = length (filter (\<lambda>r. parseRecord r = None)
                               (completeRecords m (concat fragments)))\<rparr>)"
proof -
  have e: "scanRecords m (buffer \<lparr>buffer = [], malformed = 0\<rparr>)
             = ([], buffer \<lparr>buffer = [], malformed = 0\<rparr>)"
    by (cases m) (simp_all add: scanRecords.simps [of _ "[]"])
  show ?thesis
    unfolding normalize_def completeRecords_def feedAll_whole [OF e]
    by (simp split: prod.splits)
qed

subsection \<open>Chunking invariance\<close>

text \<open>
  Claim C7. For every well-formed stream and every way of splitting it into
  fragments, the number of packets the normalizer emits equals the number of complete
  records of the stream.
\<close>

theorem normalizer_chunking:
  assumes "concat fragments = stream" and "wellFormed m parseRecord stream"
  shows "length (fst (normalize m parseRecord fragments)) = length (completeRecords m stream)"
proof -
  have "\<forall>r\<in>set (completeRecords m stream). parseRecord r \<noteq> None"
    using assms(2) by (simp add: wellFormed_def list_all_iff)
  then have "filter (\<lambda>r. parseRecord r \<noteq> None) (completeRecords m stream)
               = completeRecords m stream"
    by (simp add: filter_id_conv)
  then show ?thesis
    using assms(1) by (simp add: normalize_whole List.map_filter_def)
qed

theorem normalizer_chunking_witness:
  "concat [''a#'', ''#b#'', ''#c''] = ''a##b##c'' \<and>
   wellFormed ''##'' pathPacket ''a##b##c'' \<and>
   length (fst (normalize ''##'' pathPacket [''a#'', ''#b#'', ''#c''])) = 2 \<and>
   length (completeRecords ''##'' ''a##b##c'') = 2"
proof -
  have a: "concat [''a#'', ''#b#'', ''#c''] = ''a##b##c''" by simp
  have b: "wellFormed ''##'' pathPacket ''a##b##c''" by code_simp
  have c: "length (completeRecords ''##'' ''a##b##c'') = 2" by code_simp
  from normalizer_chunking [OF a b] c
  have "length (fst (normalize ''##'' pathPacket [''a#'', ''#b#'', ''#c''])) = 2" by simp
  with a b c show ?thesis by (intro conjI)
qed

end
